theory Spec2Isabelle
  imports Main
begin

section \<open>Data model (App.tsx, lines 4--16)\<close>

text \<open>
  Cell types, cells and search results as the source declares them. Every coordinate the
  page produces is an integer, so the \<open>number\<close> fields are of type \<open>int\<close>.
\<close>

datatype CellType = Empty | Start | End | Wall | Path | Visited

record Cell =
  row :: int
  col :: int
  type :: CellType

record PathResult =
  path :: "Cell list"
  visited :: "Cell list"
  found :: bool

text \<open>
  An access \<open>grid[r][c]\<close> whose row or column does not exist reads a property of
  \<open>undefined\<close> and throws a \<open>TypeError\<close>.
\<close>

datatype error = TypeError

definition cell_at :: "'a list list \<Rightarrow> int \<Rightarrow> int \<Rightarrow> 'a option" where
  "cell_at grid r c =
     (if 0 \<le> r \<and> nat r < length grid
      then (let rw = grid ! nat r
            in if 0 \<le> c \<and> nat c < length rw then Some (rw ! nat c) else None)
      else None)"

section \<open>The keys of the visited set\<close>

text \<open>
  Both searches keep a \<open>Set<string>\<close> of the keys \<^verbatim>\<open>`${row},${col}`\<close>: the decimal
  rendering of the row, a comma, the decimal rendering of the column. An integer is
  rendered with a minus sign when it is negative and without leading zeros.
\<close>

definition digit_char :: "nat \<Rightarrow> char" where
  "digit_char d = char_of (48 + d)"

fun digits :: "nat \<Rightarrow> string" where
  "digits n = (if n < 10 then [digit_char n] else digits (n div 10) @ [digit_char (n mod 10)])"

declare digits.simps [simp del]

definition show_int :: "int \<Rightarrow> string" where
  "show_int i = (if i < 0 then CHR ''-'' # digits (nat (- i)) else digits (nat i))"

definition key :: "int \<Rightarrow> int \<Rightarrow> string" where
  "key r c = show_int r @ CHR '','' # show_int c"

section \<open>The traversal engine (App.tsx, lines 79--155)\<close>

text \<open>
  \<open>bfs\<close> and \<open>dfs\<close> are closures of the component: besides their two arguments they
  read \<open>rows\<close>, \<open>cols\<close> and \<open>grid\<close>, which are parameters here. They read cells
  and write none, so they are given the cells themselves. A result is \<open>Inr\<close> of a
  \<open>PathResult\<close>, or \<open>Inl TypeError\<close> when a grid access throws.

  The mutable locals of a search: the frontier (\<open>queue\<close> in \<open>bfs\<close>, \<open>stack\<close> in
  \<open>dfs\<close>) of \<open>{cell, path}\<close> entries, new entries pushed at the end; the set
  \<open>visited\<close> of keys (\<open>visitedKeys\<close>, since \<open>visited\<close> names a field of the
  result); and the list \<open>visitedCells\<close>.
\<close>

record locals =
  frontier :: "(Cell \<times> Cell list) list"
  visitedKeys :: "string set"
  visitedCells :: "Cell list"

definition directions :: "(int \<times> int) list" where
  "directions = [(0, 1), (1, 0), (0, -1), (-1, 0)]"

text \<open>The body of \<open>for (const [dr, dc] of directions)\<close>, the same in both searches.\<close>

definition try_visit ::
  "int \<Rightarrow> int \<Rightarrow> Cell list list \<Rightarrow> Cell \<Rightarrow> Cell list \<Rightarrow> locals \<Rightarrow> int \<times> int \<Rightarrow> error + locals" where
  "try_visit rows cols grid cell p st d =
     (let newRow = row cell + fst d;
          newCol = col cell + snd d;
          k = key newRow newCol
      in if newRow \<ge> 0 \<and> newRow < rows \<and> newCol \<ge> 0 \<and> newCol < cols \<and> k \<notin> visitedKeys st
         then (case cell_at grid newRow newCol of
                 None \<Rightarrow> Inl TypeError
               | Some newCell \<Rightarrow>
                   if type newCell \<noteq> Wall
                   then Inr (st\<lparr>visitedKeys := insert k (visitedKeys st),
                                visitedCells := visitedCells st @ [newCell],
                                frontier := frontier st @ [(newCell, p @ [newCell])]\<rparr>)
                   else Inr st)
         else Inr st)"

fun for_directions ::
  "(locals \<Rightarrow> int \<times> int \<Rightarrow> error + locals) \<Rightarrow> (int \<times> int) list \<Rightarrow> locals \<Rightarrow> error + locals" where
  "for_directions body [] st = Inr st"
| "for_directions body (d # ds) st =
     (case body st d of Inl e \<Rightarrow> Inl e | Inr st' \<Rightarrow> for_directions body ds st')"

text \<open>
  Each pass of a \<open>while\<close> loop takes an entry from the frontier, and each entry pushed
  adds the key of a position of the grid to \<open>visited\<close>: twice the number of keys not yet
  visited plus the length of the frontier decreases, so both loops terminate.
\<close>

definition all_keys :: "int \<Rightarrow> int \<Rightarrow> string set" where
  "all_keys rows cols = (\<lambda>(r, c). key r c) ` ({0..<rows} \<times> {0..<cols})"

definition todo :: "int \<Rightarrow> int \<Rightarrow> locals \<Rightarrow> nat" where
  "todo rows cols st = 2 * card (all_keys rows cols - visitedKeys st) + length (frontier st)"

lemma finite_all_keys: "finite (all_keys rows cols)"
  by (simp add: all_keys_def)

lemma try_visit_todo:
  assumes "try_visit rows cols grid cell p st d = Inr st'"
  shows "todo rows cols st' \<le> todo rows cols st"
proof (cases "st' = st")
  case True
  then show ?thesis by simp
next
  case False
  define k where "k = key (row cell + fst d) (col cell + snd d)"
  from assms False have fresh: "k \<notin> visitedKeys st" and inb: "k \<in> all_keys rows cols"
    and vk: "visitedKeys st' = insert k (visitedKeys st)"
    and fr: "length (frontier st') = Suc (length (frontier st))"
    by (auto simp: try_visit_def Let_def k_def all_keys_def split: if_splits option.splits)
  have "all_keys rows cols - visitedKeys st' = (all_keys rows cols - visitedKeys st) - {k}"
    using vk by auto
  moreover have "k \<in> all_keys rows cols - visitedKeys st" using fresh inb by simp
  ultimately have "card (all_keys rows cols - visitedKeys st') < card (all_keys rows cols - visitedKeys st)"
    using finite_all_keys [of rows cols]
    by (metis card_Diff1_less finite_Diff)
  then show ?thesis using fr by (simp add: todo_def)
qed

lemma for_directions_todo:
  "for_directions (try_visit rows cols grid cell p) ds st = Inr st' \<Longrightarrow>
   todo rows cols st' \<le> todo rows cols st"
proof (induction ds arbitrary: st)
  case Nil
  then show ?case by simp
next
  case (Cons d ds)
  then show ?case
    by (auto split: sum.splits dest!: try_visit_todo) fastforce
qed

text \<open>
  The loop of \<open>bfs\<close>: \<open>queue.shift()\<close> takes the first entry.
\<close>

function bfs_loop :: "int \<Rightarrow> int \<Rightarrow> Cell list list \<Rightarrow> Cell \<Rightarrow> locals \<Rightarrow> error + PathResult" where
  "bfs_loop rows cols grid endCell st =
     (case frontier st of
        [] \<Rightarrow> Inr \<lparr>path = [], visited = visitedCells st, found = False\<rparr>
      | (cell, p) # rest \<Rightarrow>
          if row cell = row endCell \<and> col cell = col endCell
          then Inr \<lparr>path = p, visited = visitedCells st, found = True\<rparr>
          else (case for_directions (try_visit rows cols grid cell p) directions
                       (st\<lparr>frontier := rest\<rparr>) of
                  Inl e \<Rightarrow> Inl e
                | Inr st' \<Rightarrow> bfs_loop rows cols grid endCell st'))"
  by pat_completeness auto
termination
proof (relation "measure (\<lambda>(rows, cols, grid, endCell, st). todo rows cols st)", goal_cases)
  case 1
  then show ?case by simp
next
  case (2 rows cols grid endCell st x21 x22 cell p st')
  from for_directions_todo [OF 2(4)] 2(1) show ?case
    by (simp add: todo_def)
qed

text \<open>
  The loop of \<open>dfs\<close>: \<open>stack.pop()\<close> takes the last entry.
\<close>

function dfs_loop :: "int \<Rightarrow> int \<Rightarrow> Cell list list \<Rightarrow> Cell \<Rightarrow> locals \<Rightarrow> error + PathResult" where
  "dfs_loop rows cols grid endCell st =
     (if frontier st = []
      then Inr \<lparr>path = [], visited = visitedCells st, found = False\<rparr>
      else (case last (frontier st) of
              (cell, p) \<Rightarrow>
                if row cell = row endCell \<and> col cell = col endCell
                then Inr \<lparr>path = p, visited = visitedCells st, found = True\<rparr>
                else (case for_directions (try_visit rows cols grid cell p) directions
                             (st\<lparr>frontier := butlast (frontier st)\<rparr>) of
                        Inl e \<Rightarrow> Inl e
                      | Inr st' \<Rightarrow> dfs_loop rows cols grid endCell st')))"
  by pat_completeness auto
termination
proof (relation "measure (\<lambda>(rows, cols, grid, endCell, st). todo rows cols st)", goal_cases)
  case 1
  then show ?case by simp
next
  case (2 rows cols grid endCell st cell p st')
  from for_directions_todo [OF 2(4)] 2(1) show ?case
    by (cases "frontier st" rule: rev_cases) (simp_all add: todo_def)
qed

text \<open>The locals as both searches set them up before the loop.\<close>

definition initial :: "Cell \<Rightarrow> locals" where
  "initial startCell =
     \<lparr>frontier = [(startCell, [startCell])],
      visitedKeys = {key (row startCell) (col startCell)},
      visitedCells = []\<rparr>"

definition bfs :: "int \<Rightarrow> int \<Rightarrow> Cell list list \<Rightarrow> Cell \<Rightarrow> Cell \<Rightarrow> error + PathResult" where
  "bfs rows cols grid startCell endCell = bfs_loop rows cols grid endCell (initial startCell)"

definition dfs :: "int \<Rightarrow> int \<Rightarrow> Cell list list \<Rightarrow> Cell \<Rightarrow> Cell \<Rightarrow> error + PathResult" where
  "dfs rows cols grid startCell endCell = dfs_loop rows cols grid endCell (initial startCell)"

section \<open>The component state and its handlers (App.tsx, lines 18--77 and 157--225)\<close>

text \<open>
  Cells are objects that the handlers share and mutate in place, so the component state
  keeps them in a store: a reference is an index into \<open>heap\<close>, the grid is a matrix
  of references, and \<open>start\<close> and \<open>end\<close> are references that may or may not still
  belong to the grid. The copies \<^verbatim>\<open>[...grid]\<close> share the rows and the cells of the
  grid, so they are the same matrix of references.
\<close>

datatype Mode = ModeStart | ModeEnd | ModeWall

datatype Algorithm = BFS | DFS

type_synonym ref = nat

record App =
  rows :: int
  cols :: int
  heap :: "Cell list"
  grid :: "ref list list"
  start :: "ref option"
  end' :: "ref option"
  mode :: Mode
  isRunning :: bool
  algorithm :: Algorithm
  message :: string

definition deref :: "Cell list \<Rightarrow> ref list list \<Rightarrow> Cell list list" where
  "deref h g = map (map (\<lambda>a. h ! a)) g"

text \<open>The cells the grid of a state holds, read through the store.\<close>

definition cells :: "App \<Rightarrow> Cell list list" where
  "cells s = deref (heap s) (grid s)"

text \<open>Storing a matrix of new cell objects: each gets the next free reference.\<close>

fun alloc :: "Cell list \<Rightarrow> Cell list list \<Rightarrow> Cell list \<times> ref list list" where
  "alloc h [] = (h, [])"
| "alloc h (r # rs) =
     (let (h', g) = alloc (h @ r) rs in (h', [length h..<length h + length r] # g))"

definition set_type :: "Cell list \<Rightarrow> ref \<Rightarrow> CellType \<Rightarrow> Cell list" where
  "set_type h a t = h[a := (h ! a)\<lparr>type := t\<rparr>]"

definition fresh_grid :: "int \<Rightarrow> int \<Rightarrow> Cell list list" where
  "fresh_grid n m =
     map (\<lambda>i. map (\<lambda>j. \<lparr>row = int i, col = int j, type = Empty\<rparr>) [0..<nat m]) [0..<nat n]"

definition initializeGrid :: "App \<Rightarrow> App" where
  "initializeGrid s =
     (let (h, g) = alloc (heap s) (fresh_grid (rows s) (cols s))
      in s\<lparr>heap := h, grid := g, start := None, end' := None, message := ''''\<rparr>)"

text \<open>
  \<^verbatim>\<open>if (start) newGrid[start.row][start.col].type = 'empty'\<close> (and the same for
  \<open>end\<close>): a write into the cell object the grid holds at the coordinates of the
  referenced cell.
\<close>

definition clear_at :: "App \<Rightarrow> ref option \<Rightarrow> error + Cell list" where
  "clear_at s r =
     (case r of
        None \<Rightarrow> Inr (heap s)
      | Some a \<Rightarrow>
          (case cell_at (grid s) (row (heap s ! a)) (col (heap s ! a)) of
             None \<Rightarrow> Inl TypeError
           | Some b \<Rightarrow> Inr (set_type (heap s) b Empty)))"

text \<open>
  A \<open>return\<close> before \<open>setGrid\<close> leaves the setters uncalled; what was written into a
  cell object before it stays written. The result \<open>Inl TypeError\<close> stands for a click
  outside the grid, which no rendered cell produces.
\<close>

definition handleCellClick :: "App \<Rightarrow> int \<Rightarrow> int \<Rightarrow> error + App" where
  "handleCellClick s r c =
     (if isRunning s then Inr s
      else (case cell_at (grid s) r c of
              None \<Rightarrow> Inl TypeError
            | Some cell \<Rightarrow>
                (case mode s of
                   ModeStart \<Rightarrow>
                     (case clear_at s (start s) of
                        Inl e \<Rightarrow> Inl e
                      | Inr h \<Rightarrow>
                          if type (h ! cell) = End then Inr (s\<lparr>heap := h\<rparr>)
                          else Inr (s\<lparr>heap := set_type h cell Start, start := Some cell,
                                      mode := ModeEnd, message := ''''\<rparr>))
                 | ModeEnd \<Rightarrow>
                     (case clear_at s (end' s) of
                        Inl e \<Rightarrow> Inl e
                      | Inr h \<Rightarrow>
                          if type (h ! cell) = Start then Inr (s\<lparr>heap := h\<rparr>)
                          else Inr (s\<lparr>heap := set_type h cell End, end' := Some cell,
                                      mode := ModeWall, message := ''''\<rparr>))
                 | ModeWall \<Rightarrow>
                     if type (heap s ! cell) = Start \<or> type (heap s ! cell) = End then Inr s
                     else Inr (s\<lparr>heap := set_type (heap s) cell
                                           (if type (heap s ! cell) = Wall then Empty else Wall),
                                 message := ''''\<rparr>))))"

text \<open>The mode selector of the page (\<open>onChange\<close> of the Mode \<open>select\<close>).\<close>

definition setMode :: "App \<Rightarrow> Mode \<Rightarrow> App" where
  "setMode s m = s\<lparr>mode := m\<rparr>"

text \<open>
  \<open>clearPath\<close> and \<open>clearWalls\<close> map the grid to a matrix of new cell objects; the
  old objects, and with them whatever \<open>start\<close> and \<open>end\<close> refer to, are untouched.
\<close>

definition clearPath_cells :: "Cell list list \<Rightarrow> Cell list list" where
  "clearPath_cells g =
     map (map (\<lambda>cell. cell\<lparr>type := (if type cell = Path \<or> type cell = Visited then Empty
                                      else type cell)\<rparr>)) g"

definition clearWalls_cells :: "Cell list list \<Rightarrow> Cell list list" where
  "clearWalls_cells g =
     map (map (\<lambda>cell. cell\<lparr>type := (if type cell = Wall then Empty else type cell)\<rparr>)) g"

definition clearPath :: "App \<Rightarrow> App" where
  "clearPath s =
     (let (h, g) = alloc (heap s) (clearPath_cells (cells s))
      in s\<lparr>heap := h, grid := g, message := ''''\<rparr>)"

definition clearWalls :: "App \<Rightarrow> App" where
  "clearWalls s =
     (let (h, g) = alloc (heap s) (clearWalls_cells (cells s))
      in s\<lparr>heap := h, grid := g, message := ''''\<rparr>)"

text \<open>
  \<open>visualizePath\<close> up to the traversal: the guard, the fresh overlay-free copy of the grid
  and the search, which reads the grid and the endpoints of the render it was started from.
  The second component is the outcome of the traversal, \<open>None\<close> when none was run. The
  timed replay that follows (lines 177--202) is paced by timers and is not part of this
  embedding.
\<close>

definition visualizePath :: "App \<Rightarrow> App \<times> (error + PathResult) option" where
  "visualizePath s =
     (case (start s, end' s) of
        (Some a, Some b) \<Rightarrow>
          (let (h, g) = alloc (heap s) (clearPath_cells (cells s));
               result = (if algorithm s = BFS
                         then bfs (rows s) (cols s) (cells s) (heap s ! a) (heap s ! b)
                         else dfs (rows s) (cols s) (cells s) (heap s ! a) (heap s ! b))
           in (s\<lparr>isRunning := True, message := '''', heap := h, grid := g\<rparr>, Some result))
      | _ \<Rightarrow> (s\<lparr>message := ''Please select both start and end points!''\<rparr>, None))"

section \<open>Grids, positions and paths\<close>

text \<open>
  A grid of \<open>rows \<times> cols\<close> cells holds at \<open>[i][j]\<close> the cell whose coordinates are
  \<open>(i, j)\<close>: \<open>initializeGrid\<close> builds it so, and the handlers, which write nothing but
  types, keep it so (lemmas \<open>wf_initializeGrid\<close>, \<open>wf_handleCellClick\<close> and
  \<open>wf_clear\<close> below).
\<close>

definition wf_grid :: "int \<Rightarrow> int \<Rightarrow> Cell list list \<Rightarrow> bool" where
  "wf_grid n m g \<longleftrightarrow>
     int (length g) = n \<and>
     (\<forall>i \<in> {0..<length g}.
        int (length (g ! i)) = m \<and>
        (\<forall>j \<in> {0..<length (g ! i)}. row (g ! i ! j) = int i \<and> col (g ! i ! j) = int j))"

definition pos :: "Cell \<Rightarrow> int \<times> int" where
  "pos c = (row c, col c)"

definition manhattan :: "int \<times> int \<Rightarrow> int \<times> int \<Rightarrow> int" where
  "manhattan a b = \<bar>fst a - fst b\<bar> + \<bar>snd a - snd b\<bar>"

text \<open>A position a search may step onto: inside the grid and not a wall.\<close>

definition passable :: "int \<Rightarrow> int \<Rightarrow> Cell list list \<Rightarrow> int \<times> int \<Rightarrow> bool" where
  "passable n m g x \<longleftrightarrow>
     0 \<le> fst x \<and> fst x < n \<and> 0 \<le> snd x \<and> snd x < m \<and>
     (case cell_at g (fst x) (snd x) of None \<Rightarrow> False | Some c \<Rightarrow> type c \<noteq> Wall)"

fun orthogonal :: "(int \<times> int) list \<Rightarrow> bool" where
  "orthogonal (a # b # xs) = (manhattan a b = 1 \<and> orthogonal (b # xs))"
| "orthogonal _ = True"

text \<open>
  A wall-free orthogonal path: a non-empty sequence of positions, each inside the grid and
  not a wall, each next to the one before it.
\<close>

definition wall_free_path :: "int \<Rightarrow> int \<Rightarrow> Cell list list \<Rightarrow> (int \<times> int) list \<Rightarrow> bool" where
  "wall_free_path n m g xs \<longleftrightarrow> xs \<noteq> [] \<and> list_all (passable n m g) xs \<and> orthogonal xs"

text \<open>
  What the searches follow: the first position is taken as it is, every later one is stepped
  onto and so is inside the grid and not a wall.
\<close>

definition walk :: "int \<Rightarrow> int \<Rightarrow> Cell list list \<Rightarrow> (int \<times> int) list \<Rightarrow> bool" where
  "walk n m g xs \<longleftrightarrow> xs \<noteq> [] \<and> list_all (passable n m g) (tl xs) \<and> orthogonal xs"

definition connects :: "(int \<times> int) list \<Rightarrow> Cell \<Rightarrow> Cell \<Rightarrow> bool" where
  "connects xs a b \<longleftrightarrow> xs \<noteq> [] \<and> hd xs = pos a \<and> last xs = pos b"

text \<open>The least number of edges of a wall-free path from the start to the end.\<close>

definition min_edges :: "int \<Rightarrow> int \<Rightarrow> Cell list list \<Rightarrow> Cell \<Rightarrow> Cell \<Rightarrow> nat" where
  "min_edges n m g s e =
     (LEAST k. \<exists>xs. wall_free_path n m g xs \<and> connects xs s e \<and> length xs - 1 = k)"

text \<open>Every consecutive pair of cells of a path is at Manhattan distance exactly 1.\<close>

definition adjacent_cells :: "Cell list \<Rightarrow> bool" where
  "adjacent_cells p \<longleftrightarrow>
     (\<forall>i. Suc i < length p \<longrightarrow> manhattan (pos (p ! i)) (pos (p ! Suc i)) = 1)"

text \<open>A grid without walls.\<close>

definition no_walls :: "Cell list list \<Rightarrow> bool" where
  "no_walls g \<longleftrightarrow> (\<forall>r \<in> set g. \<forall>c \<in> set r. type c \<noteq> Wall)"



section \<open>Notions for the proofs\<close>

text \<open>
  The key of a position, the cell a well-formed grid holds at a position, and the four
  neighbours of a position in the order of \<open>directions\<close>.
\<close>

definition keyp :: "int \<times> int \<Rightarrow> string" where
  "keyp x = key (fst x) (snd x)"

definition the_cell :: "Cell list list \<Rightarrow> int \<times> int \<Rightarrow> Cell" where
  "the_cell g x = g ! nat (fst x) ! nat (snd x)"

definition nbrs :: "int \<times> int \<Rightarrow> (int \<times> int) list" where
  "nbrs x = map (\<lambda>d. (fst x + fst d, snd x + snd d)) directions"

text \<open>
  One run of the loop over \<open>directions\<close> pushes the passable neighbours that are not
  yet visited, in order: \<open>fresh\<close> lists them, \<open>pushed\<close> is the state after them.
\<close>

fun fresh :: "int \<Rightarrow> int \<Rightarrow> Cell list list \<Rightarrow> (int \<times> int) list \<Rightarrow> string set \<Rightarrow> (int \<times> int) list" where
  "fresh n m g [] V = []"
| "fresh n m g (x # xs) V =
     (if passable n m g x \<and> keyp x \<notin> V then x # fresh n m g xs (insert (keyp x) V)
      else fresh n m g xs V)"

definition pushed :: "Cell list list \<Rightarrow> Cell list \<Rightarrow> (int \<times> int) list \<Rightarrow> locals \<Rightarrow> locals" where
  "pushed g p fr st =
     st\<lparr>visitedKeys := visitedKeys st \<union> keyp ` set fr,
        visitedCells := visitedCells st @ map (the_cell g) fr,
        frontier := frontier st @ map (\<lambda>x. (the_cell g x, p @ [the_cell g x])) fr\<rparr>"

text \<open>The positions whose key is in the visited set.\<close>

definition seen :: "locals \<Rightarrow> (int \<times> int) set" where
  "seen st = {x. keyp x \<in> visitedKeys st}"

text \<open>
  A frontier entry pairs a cell with a path that leads from the start cell to it, each step
  onto a passable neighbour.
\<close>

definition entry_ok :: "int \<Rightarrow> int \<Rightarrow> Cell list list \<Rightarrow> Cell \<Rightarrow> Cell \<times> Cell list \<Rightarrow> bool" where
  "entry_ok n m g s en \<longleftrightarrow>
     snd en \<noteq> [] \<and> hd (snd en) = s \<and> last (snd en) = fst en \<and> walk n m g (map pos (snd en)) \<and>
     (\<forall>c \<in> set (tl (snd en)). type c \<noteq> Wall)"

text \<open>
  A position is closed once it has been taken from the frontier and expanded: it is not the
  end, and all its passable neighbours are visited.
\<close>

definition closed :: "int \<Rightarrow> int \<Rightarrow> Cell list list \<Rightarrow> Cell \<Rightarrow> locals \<Rightarrow> int \<times> int \<Rightarrow> bool" where
  "closed n m g e st x \<longleftrightarrow>
     x \<noteq> pos e \<and> (\<forall>y. manhattan x y = 1 \<and> passable n m g y \<longrightarrow> y \<in> seen st)"

text \<open>The invariant of both loops.\<close>

definition search_inv :: "int \<Rightarrow> int \<Rightarrow> Cell list list \<Rightarrow> Cell \<Rightarrow> Cell \<Rightarrow> locals \<Rightarrow> bool" where
  "search_inv n m g s e st \<longleftrightarrow>
     (\<forall>en \<in> set (frontier st). entry_ok n m g s en \<and> pos (fst en) \<in> seen st) \<and>
     visitedKeys st = keyp ` insert (pos s) (pos ` set (visitedCells st)) \<and>
     distinct (map pos (visitedCells st)) \<and>
     pos s \<notin> pos ` set (visitedCells st) \<and>
     (\<forall>x \<in> seen st. x \<in> pos ` fst ` set (frontier st) \<or> closed n m g e st x)"

text \<open>How a result arises from the state in which a loop stops.\<close>

definition final :: "Cell \<Rightarrow> locals \<Rightarrow> PathResult \<Rightarrow> bool" where
  "final e st r \<longleftrightarrow>
     visited r = visitedCells st \<and>
     (frontier st = [] \<and> path r = [] \<and> \<not> found r \<or>
      (\<exists>c p. (c, p) \<in> set (frontier st) \<and> pos c = pos e \<and> path r = p \<and> found r))"

text \<open>
  The additional invariant of the breadth-first loop: every queued path is a shortest one,
  the queue is sorted by path length with at most two lengths in it, and every position
  within the distance of the head of the queue is visited.
\<close>

definition shortest :: "int \<Rightarrow> int \<Rightarrow> Cell list list \<Rightarrow> Cell \<Rightarrow> Cell \<times> Cell list \<Rightarrow> bool" where
  "shortest n m g s en \<longleftrightarrow>
     (\<forall>xs. walk n m g xs \<and> hd xs = pos s \<and> last xs = pos (fst en) \<longrightarrow> length (snd en) \<le> length xs)"

definition bfs_inv :: "int \<Rightarrow> int \<Rightarrow> Cell list list \<Rightarrow> Cell \<Rightarrow> locals \<Rightarrow> bool" where
  "bfs_inv n m g s st \<longleftrightarrow>
     (\<forall>en \<in> set (frontier st). shortest n m g s en) \<and>
     sorted (map (\<lambda>en. length (snd en)) (frontier st)) \<and>
     (\<forall>en \<in> set (frontier st). length (snd en) \<le> Suc (length (snd (hd (frontier st))))) \<and>
     (frontier st \<noteq> [] \<longrightarrow>
        (\<forall>xs. walk n m g xs \<and> hd xs = pos s \<and> length xs \<le> length (snd (hd (frontier st)))
              \<longrightarrow> last xs \<in> seen st))"


section \<open>Concrete grids and states\<close>

text \<open>
  A \<open>3 \<times> 3\<close> grid with one wall at \<open>(0, 1)\<close> between the start \<open>(0, 0)\<close> and the end
  \<open>(0, 2)\<close>, a detour of six edges along the bottom row, and what the two searches return
  on it.
\<close>

definition maze :: "Cell list list" where
  "maze =
     [ [\<lparr>row = 0, col = 0, type = Start\<rparr>, \<lparr>row = 0, col = 1, type = Wall\<rparr>,
       \<lparr>row = 0, col = 2, type = End\<rparr>],
      [\<lparr>row = 1, col = 0, type = Empty\<rparr>, \<lparr>row = 1, col = 1, type = Empty\<rparr>,
       \<lparr>row = 1, col = 2, type = Empty\<rparr>],
      [\<lparr>row = 2, col = 0, type = Empty\<rparr>, \<lparr>row = 2, col = 1, type = Empty\<rparr>,
       \<lparr>row = 2, col = 2, type = Empty\<rparr>] ]"

definition maze_start :: Cell where
  "maze_start = \<lparr>row = 0, col = 0, type = Start\<rparr>"

definition maze_end :: Cell where
  "maze_end = \<lparr>row = 0, col = 2, type = End\<rparr>"

definition maze_detour :: "(int \<times> int) list" where
  "maze_detour = [(0, 0), (1, 0), (2, 0), (2, 1), (2, 2), (1, 2), (0, 2)]"

definition maze_bfs :: PathResult where
  "maze_bfs =
     \<lparr>path = [\<lparr>row = 0, col = 0, type = Start\<rparr>, \<lparr>row = 1, col = 0, type = Empty\<rparr>,
              \<lparr>row = 1, col = 1, type = Empty\<rparr>, \<lparr>row = 1, col = 2, type = Empty\<rparr>,
              \<lparr>row = 0, col = 2, type = End\<rparr>],
      visited = [\<lparr>row = 1, col = 0, type = Empty\<rparr>, \<lparr>row = 1, col = 1, type = Empty\<rparr>,
                 \<lparr>row = 2, col = 0, type = Empty\<rparr>, \<lparr>row = 1, col = 2, type = Empty\<rparr>,
                 \<lparr>row = 2, col = 1, type = Empty\<rparr>, \<lparr>row = 2, col = 2, type = Empty\<rparr>,
                 \<lparr>row = 0, col = 2, type = End\<rparr>],
      found = True\<rparr>"

definition maze_dfs :: PathResult where
  "maze_dfs =
     \<lparr>path = [\<lparr>row = 0, col = 0, type = Start\<rparr>, \<lparr>row = 1, col = 0, type = Empty\<rparr>,
              \<lparr>row = 2, col = 0, type = Empty\<rparr>, \<lparr>row = 2, col = 1, type = Empty\<rparr>,
              \<lparr>row = 2, col = 2, type = Empty\<rparr>, \<lparr>row = 1, col = 2, type = Empty\<rparr>,
              \<lparr>row = 0, col = 2, type = End\<rparr>],
      visited = [\<lparr>row = 1, col = 0, type = Empty\<rparr>, \<lparr>row = 1, col = 1, type = Empty\<rparr>,
                 \<lparr>row = 2, col = 0, type = Empty\<rparr>, \<lparr>row = 2, col = 1, type = Empty\<rparr>,
                 \<lparr>row = 2, col = 2, type = Empty\<rparr>, \<lparr>row = 1, col = 2, type = Empty\<rparr>,
                 \<lparr>row = 0, col = 2, type = End\<rparr>],
      found = True\<rparr>"


text \<open>A \<open>3 \<times> 3\<close> grid whose middle row of walls separates the start from the end.\<close>

definition barrier :: "Cell list list" where
  "barrier =
     [ [\<lparr>row = 0, col = 0, type = Start\<rparr>, \<lparr>row = 0, col = 1, type = Empty\<rparr>,
       \<lparr>row = 0, col = 2, type = Empty\<rparr>],
      [\<lparr>row = 1, col = 0, type = Wall\<rparr>, \<lparr>row = 1, col = 1, type = Wall\<rparr>,
       \<lparr>row = 1, col = 2, type = Wall\<rparr>],
      [\<lparr>row = 2, col = 0, type = End\<rparr>, \<lparr>row = 2, col = 1, type = Empty\<rparr>,
       \<lparr>row = 2, col = 2, type = Empty\<rparr>] ]"

definition barrier_start :: Cell where
  "barrier_start = \<lparr>row = 0, col = 0, type = Start\<rparr>"

definition barrier_end :: Cell where
  "barrier_end = \<lparr>row = 2, col = 0, type = End\<rparr>"

text \<open>
  States of the page: the fresh \<open>5 \<times> 5\<close> grid; the start placed at \<open>(0, 0)\<close> and the end
  at \<open>(0, 1)\<close> by two clicks; and from there the mode set back to \<open>start\<close>, the end cell
  clicked, the mode set to \<open>wall\<close> and the cell at \<open>(0, 0)\<close> clicked.
\<close>

definition after :: "error + 'a \<Rightarrow> ('a \<Rightarrow> error + 'b) \<Rightarrow> error + 'b" where
  "after x f = (case x of Inl e \<Rightarrow> Inl e | Inr s \<Rightarrow> f s)"

definition blank :: App where
  "blank = initializeGrid \<lparr>rows = 5, cols = 5, heap = [], grid = [], start = None, end' = None,
             mode = ModeStart, isRunning = False, algorithm = BFS, message = ''''\<rparr>"

definition endpoints_placed :: "error + App" where
  "endpoints_placed = after (handleCellClick blank 0 0) (\<lambda>s. handleCellClick s 0 1)"

definition start_walled :: "error + App" where
  "start_walled =
     after (after endpoints_placed (\<lambda>s. handleCellClick (setMode s ModeStart) 0 1))
       (\<lambda>s. handleCellClick (setMode s ModeWall) 0 0)"

text \<open>The grid and the endpoints that \<open>start_walled\<close> holds.\<close>

definition walled_start :: Cell where
  "walled_start = \<lparr>row = 0, col = 0, type = Wall\<rparr>"

definition walled_end :: Cell where
  "walled_end = \<lparr>row = 0, col = 1, type = End\<rparr>"

definition walled_grid :: "Cell list list" where
  "walled_grid =
     (let top = (fresh_grid 5 5 ! 0)[0 := walled_start, 1 := walled_end]
      in (fresh_grid 5 5)[0 := top])"

text \<open>The fresh \<open>5 \<times> 5\<close> grid with the start clicked at \<open>(0, 0)\<close> and the end at \<open>(0, 4)\<close>.\<close>

definition scenario_start :: Cell where
  "scenario_start = \<lparr>row = 0, col = 0, type = Start\<rparr>"

definition scenario_end :: Cell where
  "scenario_end = \<lparr>row = 0, col = 4, type = End\<rparr>"

definition scenario_grid :: "Cell list list" where
  "scenario_grid =
     (let top = (fresh_grid 5 5 ! 0)[0 := scenario_start, 4 := scenario_end]
      in (fresh_grid 5 5)[0 := top])"

section \<open>Keys identify positions\<close>

text \<open>
  The keys are the strings the template literal produces, and two positions have the same
  key only if they are the same position.
\<close>

lemma key_examples: "key 0 0 = ''0,0''" "key 12 7 = ''12,7''" "key (- 1) 30 = ''-1,30''"
  by code_simp+

lemma digit_char_inj: "d < 10 \<Longrightarrow> e < 10 \<Longrightarrow> digit_char d = digit_char e \<Longrightarrow> d = e"
proof -
  assume d: "d < 10" and e: "e < 10" and eq: "digit_char d = digit_char e"
  from eq have "(of_char (char_of (48 + d)) :: nat) = of_char (char_of (48 + e))"
    by (simp add: digit_char_def)
  then have "(48 + d) mod 256 = (48 + e) mod 256"
    by (simp only: of_char_of)
  with d e show "d = e" by simp
qed

lemma digit_char_code: "d < 10 \<Longrightarrow> (of_char (digit_char d) :: nat) = 48 + d"
proof -
  assume d: "d < 10"
  have "(of_char (digit_char d) :: nat) = (48 + d) mod 256"
    by (simp only: digit_char_def of_char_of)
  with d show ?thesis by simp
qed

lemma digit_char_not_sep:
  assumes "d < 10"
  shows "digit_char d \<noteq> CHR '',''" and "digit_char d \<noteq> CHR ''-''"
proof -
  have "(of_char (CHR '','') :: nat) = 44" "(of_char (CHR ''-'') :: nat) = 45" by simp_all
  with digit_char_code [OF assms] show "digit_char d \<noteq> CHR '',''" and "digit_char d \<noteq> CHR ''-''"
    by force+
qed

lemma digits_nonempty: "digits n \<noteq> []"
  by (subst digits.simps) simp

lemma digits_chars: "c \<in> set (digits n) \<Longrightarrow> \<exists>d<10. c = digit_char d"
proof (induction n rule: digits.induct)
  case (1 n)
  show ?case
  proof (cases "n < 10")
    case True
    with "1.prems" show ?thesis by (subst (asm) digits.simps) auto
  next
    case False
    from "1.prems" False have "c \<in> set (digits (n div 10)) \<or> c = digit_char (n mod 10)"
      by (subst (asm) digits.simps) auto
    then show ?thesis
    proof
      assume "c \<in> set (digits (n div 10))"
      with "1.IH" False show ?thesis by simp
    next
      assume "c = digit_char (n mod 10)"
      moreover have "n mod 10 < 10" by simp
      ultimately show ?thesis by blast
    qed
  qed
qed

lemma digits_inj: "digits n = digits m \<Longrightarrow> n = m"
proof (induction n arbitrary: m rule: digits.induct)
  case (1 n)
  show ?case
  proof (cases "n < 10")
    case True
    then have dn: "digits n = [digit_char n]" by (subst digits.simps) simp
    have m: "m < 10"
    proof (rule ccontr)
      assume "\<not> m < 10"
      then have "digits m = digits (m div 10) @ [digit_char (m mod 10)]"
        by (subst digits.simps) simp
      with dn "1.prems" digits_nonempty [of "m div 10"] show False by simp
    qed
    then have "digits m = [digit_char m]" by (subst digits.simps) simp
    with dn "1.prems" True m show ?thesis by (simp add: digit_char_inj)
  next
    case False
    then have dn: "digits n = digits (n div 10) @ [digit_char (n mod 10)]"
      by (subst digits.simps) simp
    have m: "\<not> m < 10"
    proof
      assume "m < 10"
      then have "digits m = [digit_char m]" by (subst digits.simps) simp
      with dn "1.prems" digits_nonempty [of "n div 10"] show False by simp
    qed
    then have dm: "digits m = digits (m div 10) @ [digit_char (m mod 10)]"
      by (subst digits.simps) simp
    from dn dm "1.prems" have a: "digits (n div 10) = digits (m div 10)"
      and b: "digit_char (n mod 10) = digit_char (m mod 10)" by simp_all
    from "1.IH" [OF False a] have "n div 10 = m div 10" .
    moreover from b have "n mod 10 = m mod 10" by (simp add: digit_char_inj)
    ultimately show ?thesis by (metis div_mult_mod_eq)
  qed
qed

lemma digits_no_comma: "CHR '','' \<notin> set (digits n)"
proof
  assume "CHR '','' \<in> set (digits n)"
  from digits_chars [OF this] obtain d where d: "d < 10" and c: "CHR '','' = digit_char d"
    by auto
  from digit_char_not_sep(1) [OF d] c show False by simp
qed

lemma show_int_no_comma: "CHR '','' \<notin> set (show_int i)"
  by (simp add: show_int_def digits_no_comma)

lemma show_int_inj: "show_int i = show_int j \<Longrightarrow> i = j"
proof -
  assume eq: "show_int i = show_int j"
  have no_minus: "hd (digits n) \<noteq> CHR ''-''" for n
    using digits_chars [of "hd (digits n)" n] digits_nonempty [of n] digit_char_not_sep(2)
    by (metis hd_in_set)
  show "i = j"
  proof (cases "i < 0")
    case True
    show ?thesis
    proof (cases "j < 0")
      case j: True
      with True eq have "digits (nat (- i)) = digits (nat (- j))" by (simp add: show_int_def)
      then have "nat (- i) = nat (- j)" by (rule digits_inj)
      with True j show ?thesis by simp
    next
      case j: False
      with True eq have "CHR ''-'' # digits (nat (- i)) = digits (nat j)" by (simp add: show_int_def)
      with no_minus [of "nat j"] show ?thesis by (metis list.sel(1))
    qed
  next
    case False
    show ?thesis
    proof (cases "j < 0")
      case j: True
      with False eq have "digits (nat i) = CHR ''-'' # digits (nat (- j))" by (simp add: show_int_def)
      with no_minus [of "nat i"] show ?thesis by (metis list.sel(1))
    next
      case j: False
      with False eq have "digits (nat i) = digits (nat j)" by (simp add: show_int_def)
      then have "nat i = nat j" by (rule digits_inj)
      with False j show ?thesis by simp
    qed
  qed
qed

lemma split_at_sep:
  "x \<notin> set a \<Longrightarrow> x \<notin> set a' \<Longrightarrow> a @ x # b = a' @ x # b' \<Longrightarrow> a = a' \<and> b = b'"
proof (induction a arbitrary: a')
  case Nil
  then show ?case by (cases a') auto
next
  case (Cons y a)
  then show ?case by (cases a') auto
qed

lemma key_inj: "key r c = key r' c' \<longleftrightarrow> r = r' \<and> c = c'"
proof
  assume "key r c = key r' c'"
  then have "show_int r = show_int r' \<and> show_int c = show_int c'"
    unfolding key_def using show_int_no_comma split_at_sep by metis
  then show "r = r' \<and> c = c'" by (simp add: show_int_inj)
qed simp

section \<open>The loop over the directions\<close>

text \<open>
  On a well-formed grid no access throws, and a run of the loop over the directions adds
  exactly the passable neighbours that were not visited before.
\<close>

lemma keyp_inj [simp]: "keyp x = keyp y \<longleftrightarrow> x = y"
  by (cases x, cases y) (simp add: keyp_def key_inj)

lemma wf_grid_rows:
  assumes "wf_grid n m g"
  shows "int (length g) = n" and "i < length g \<Longrightarrow> int (length (g ! i)) = m"
    and "i < length g \<Longrightarrow> j < length (g ! i) \<Longrightarrow> pos (g ! i ! j) = (int i, int j)"
  using assms by (simp_all add: wf_grid_def pos_def)

lemma wf_grid_cell:
  assumes "wf_grid n m g" and "0 \<le> fst x" "fst x < n" "0 \<le> snd x" "snd x < m"
  shows "cell_at g (fst x) (snd x) = Some (the_cell g x)" and "pos (the_cell g x) = x"
proof -
  from assms wf_grid_rows(1) [OF assms(1)] have i: "nat (fst x) < length g" by linarith
  from assms wf_grid_rows(2) [OF assms(1) i] have j: "nat (snd x) < length (g ! nat (fst x))"
    by linarith
  from i j assms show "cell_at g (fst x) (snd x) = Some (the_cell g x)"
    by (simp add: cell_at_def the_cell_def)
  from wf_grid_rows(3) [OF assms(1) i j] assms show "pos (the_cell g x) = x"
    by (simp add: the_cell_def prod_eq_iff)
qed

lemma passable_cell:
  assumes "wf_grid n m g" and "passable n m g x"
  shows "cell_at g (fst x) (snd x) = Some (the_cell g x)" and "pos (the_cell g x) = x"
    and "type (the_cell g x) \<noteq> Wall"
proof -
  from assms(2) have b: "0 \<le> fst x" "fst x < n" "0 \<le> snd x" "snd x < m"
    by (simp_all add: passable_def)
  from wf_grid_cell [OF assms(1) b] show c: "cell_at g (fst x) (snd x) = Some (the_cell g x)"
    and "pos (the_cell g x) = x" by simp_all
  from assms(2) c show "type (the_cell g x) \<noteq> Wall" by (simp add: passable_def)
qed

lemma nbrs_manhattan: "y \<in> set (nbrs x) \<longleftrightarrow> manhattan x y = 1"
  by (cases x, cases y) (auto simp: nbrs_def directions_def manhattan_def)

lemma set_fresh: "set (fresh n m g xs V) = {x \<in> set xs. passable n m g x \<and> keyp x \<notin> V}"
  by (induction xs arbitrary: V) auto

lemma distinct_fresh: "distinct (fresh n m g xs V)"
  by (induction xs arbitrary: V) (auto simp: set_fresh)

lemma pushed_Nil [simp]: "pushed g p [] st = st"
  by (simp add: pushed_def)

lemma pushed_Cons: "pushed g p fr (pushed g p [x] st) = pushed g p (x # fr) st"
  by (simp add: pushed_def Un_assoc)

lemma try_visit_wf:
  assumes "wf_grid n m g"
  shows "try_visit n m g cell p st d =
     Inr (let x = (row cell + fst d, col cell + snd d)
          in if passable n m g x \<and> keyp x \<notin> visitedKeys st then pushed g p [x] st else st)"
proof -
  define x where "x = (row cell + fst d, col cell + snd d)"
  show ?thesis
  proof (cases "0 \<le> fst x \<and> fst x < n \<and> 0 \<le> snd x \<and> snd x < m")
    case True
    then have b: "0 \<le> fst x" "fst x < n" "0 \<le> snd x" "snd x < m" by simp_all
    note c = wf_grid_cell [OF assms b]
    from True c(1) show ?thesis
      unfolding try_visit_def Let_def x_def [symmetric]
      by (simp add: x_def passable_def keyp_def pushed_def)
  next
    case False
    then show ?thesis
      unfolding try_visit_def Let_def x_def [symmetric]
      by (auto simp add: x_def passable_def)
  qed
qed

lemma for_directions_wf:
  assumes "wf_grid n m g"
  shows "for_directions (try_visit n m g cell p) ds st =
     Inr (pushed g p (fresh n m g (map (\<lambda>d. (row cell + fst d, col cell + snd d)) ds)
                        (visitedKeys st)) st)"
proof (induction ds arbitrary: st)
  case Nil
  then show ?case by simp
next
  case (Cons d ds)
  define x where "x = (row cell + fst d, col cell + snd d)"
  show ?case
  proof (cases "passable n m g x \<and> keyp x \<notin> visitedKeys st")
    case True
    then have "try_visit n m g cell p st d = Inr (pushed g p [x] st)"
      by (simp add: try_visit_wf [OF assms] x_def)
    moreover have "visitedKeys (pushed g p [x] st) = insert (keyp x) (visitedKeys st)"
      by (simp add: pushed_def)
    ultimately show ?thesis using True Cons.IH [of "pushed g p [x] st"]
      by (simp add: x_def [symmetric] pushed_Cons)
  next
    case False
    then have "try_visit n m g cell p st d = Inr st"
      by (auto simp add: try_visit_wf [OF assms] x_def)
    then show ?thesis using False Cons.IH [of st]
      by (auto simp add: x_def [symmetric])
  qed
qed

lemma expand_wf:
  assumes "wf_grid n m g"
  shows "for_directions (try_visit n m g cell p) directions st =
     Inr (pushed g p (fresh n m g (nbrs (pos cell)) (visitedKeys st)) st)"
  using for_directions_wf [OF assms, of cell p directions st]
  by (simp add: nbrs_def pos_def)


section \<open>The invariant of both searches\<close>

declare bfs_loop.simps [simp del] dfs_loop.simps [simp del]

lemma orthogonal_snoc:
  "orthogonal xs \<Longrightarrow> xs = [] \<or> manhattan (last xs) x = 1 \<Longrightarrow> orthogonal (xs @ [x])"
  by (induction xs rule: orthogonal.induct) auto

lemma walk_snoc:
  assumes "walk n m g xs" and "manhattan (last xs) x = 1" and "passable n m g x"
  shows "walk n m g (xs @ [x])"
proof -
  from assms(1) have "xs \<noteq> []" and "orthogonal xs" and "list_all (passable n m g) (tl xs)"
    by (simp_all add: walk_def)
  moreover from this assms(2) have "orthogonal (xs @ [x])" by (simp add: orthogonal_snoc)
  ultimately show ?thesis using assms(3) by (simp add: walk_def)
qed

lemma seen_frontier [simp]: "seen (st\<lparr>frontier := F\<rparr>) = seen st"
  by (simp add: seen_def)

lemma seen_pushed: "seen (pushed g p fr st) = seen st \<union> set fr"
  by (auto simp: seen_def pushed_def)

lemma frontier_pushed:
  "frontier (pushed g p fr st) = frontier st @ map (\<lambda>x. (the_cell g x, p @ [the_cell g x])) fr"
  by (simp add: pushed_def)

lemma visitedCells_pushed:
  "visitedCells (pushed g p fr st) = visitedCells st @ map (the_cell g) fr"
  by (simp add: pushed_def)

lemma visitedKeys_pushed:
  "visitedKeys (pushed g p fr st) = visitedKeys st \<union> keyp ` set fr"
  by (simp add: pushed_def)

lemma pos_eq_iff: "pos c = pos e \<longleftrightarrow> row c = row e \<and> col c = col e"
  by (simp add: pos_def)

lemma search_inv_step:
  assumes wf: "wf_grid n m g" and inv: "search_inv n m g s e st"
    and en: "(c, p) \<in> set (frontier st)" and ne: "pos c \<noteq> pos e"
    and F: "set F \<subseteq> set (frontier st)" "set (frontier st) \<subseteq> insert (c, p) (set F)"
  shows "search_inv n m g s e
           (pushed g p (fresh n m g (nbrs (pos c)) (visitedKeys st)) (st\<lparr>frontier := F\<rparr>))"
proof -
  define fr where "fr = fresh n m g (nbrs (pos c)) (visitedKeys st)"
  define st' where "st' = pushed g p fr (st\<lparr>frontier := F\<rparr>)"
  have fr: "set fr = {x \<in> set (nbrs (pos c)). passable n m g x \<and> keyp x \<notin> visitedKeys st}"
    by (simp add: fr_def set_fresh)
  have dfr: "distinct fr" by (simp add: fr_def distinct_fresh)
  have pos_new: "pos (the_cell g x) = x" and type_new: "type (the_cell g x) \<noteq> Wall"
    if "x \<in> set fr" for x
    using that passable_cell [OF wf, of x] fr by simp_all
  have map_new: "map pos (map (the_cell g) fr) = fr"
    by (simp add: map_idI pos_new)
  have seen': "seen st' = seen st \<union> set fr"
    by (simp add: st'_def seen_pushed)
  have front': "frontier st' = F @ map (\<lambda>x. (the_cell g x, p @ [the_cell g x])) fr"
    by (simp add: st'_def frontier_pushed)
  have cells': "visitedCells st' = visitedCells st @ map (the_cell g) fr"
    by (simp add: st'_def visitedCells_pushed)
  have keys': "visitedKeys st' = visitedKeys st \<union> keyp ` set fr"
    by (simp add: st'_def visitedKeys_pushed)
  from inv have old_en: "\<And>en. en \<in> set (frontier st) \<Longrightarrow> entry_ok n m g s en \<and> pos (fst en) \<in> seen st"
    and old_keys: "visitedKeys st = keyp ` insert (pos s) (pos ` set (visitedCells st))"
    and old_dist: "distinct (map pos (visitedCells st))"
    and old_start: "pos s \<notin> pos ` set (visitedCells st)"
    and old_closed: "\<And>x. x \<in> seen st \<Longrightarrow> x \<in> pos ` fst ` set (frontier st) \<or> closed n m g e st x"
    by (simp_all add: search_inv_def)
  from old_en [OF en] have p: "p \<noteq> []" "hd p = s" "last p = c" "walk n m g (map pos p)"
    "\<forall>c' \<in> set (tl p). type c' \<noteq> Wall"
    by (simp_all add: entry_ok_def)
  have not_seen: "x \<notin> seen st" if "x \<in> set fr" for x
    using that fr by (simp add: seen_def)
  have seen_old: "seen st = insert (pos s) (pos ` set (visitedCells st))"
    unfolding seen_def old_keys by (auto simp: image_iff)
  have 1: "entry_ok n m g s en \<and> pos (fst en) \<in> seen st'" if "en \<in> set (frontier st')" for en
  proof (cases "en \<in> set F")
    case True
    with F(1) old_en [of en] seen' show ?thesis by auto
  next
    case False
    with that front' obtain x where x: "x \<in> set fr" and en_eq: "en = (the_cell g x, p @ [the_cell g x])"
      by auto
    from x fr have adj: "manhattan (pos c) x = 1" and pass: "passable n m g x"
      by (simp_all add: nbrs_manhattan)
    from p(1,3) have "last (map pos p) = pos c" by (simp add: last_map)
    with walk_snoc [OF p(4) _ pass] adj have "walk n m g (map pos p @ [x])" by simp
    with p(1,2,5) x show ?thesis
      by (auto simp: en_eq entry_ok_def pos_new type_new seen')
  qed
  have img: "pos ` set (visitedCells st') = pos ` set (visitedCells st) \<union> set fr"
  proof -
    have "pos ` the_cell g ` set fr = set fr"
      using pos_new by (force simp: image_iff)
    then show ?thesis by (simp add: cells' image_Un)
  qed
  have 2: "visitedKeys st' = keyp ` insert (pos s) (pos ` set (visitedCells st'))"
    unfolding img keys' old_keys by (simp add: image_Un)
  have 3: "distinct (map pos (visitedCells st'))"
  proof -
    have "set (map pos (visitedCells st)) \<inter> set fr = {}"
      using not_seen seen_old by auto
    moreover have "map pos (visitedCells st') = map pos (visitedCells st) @ fr"
      using map_new by (simp add: cells')
    ultimately show ?thesis using old_dist dfr by simp
  qed
  have 4: "pos s \<notin> pos ` set (visitedCells st')"
  proof -
    have "pos s \<notin> set fr" using not_seen seen_old by blast
    with old_start show ?thesis unfolding img by simp
  qed
  have 5: "x \<in> pos ` fst ` set (frontier st') \<or> closed n m g e st' x" if "x \<in> seen st'" for x
  proof (cases "x \<in> set fr")
    case True
    then have "(the_cell g x, p @ [the_cell g x]) \<in> set (frontier st')"
      by (simp add: front')
    then have "pos (the_cell g x) \<in> pos ` fst ` set (frontier st')" by force
    with pos_new [OF True] show ?thesis by simp
  next
    case False
    with that seen' have xs: "x \<in> seen st" by simp
    have mono: "closed n m g e st x \<Longrightarrow> closed n m g e st' x"
      by (auto simp: closed_def seen')
    from old_closed [OF xs] show ?thesis
    proof
      assume "x \<in> pos ` fst ` set (frontier st)"
      then obtain en where en': "en \<in> set (frontier st)" and x_eq: "x = pos (fst en)" by auto
      show ?thesis
      proof (cases "en \<in> set F")
        case True
        then show ?thesis by (auto simp: front' x_eq)
      next
        case False
        with en' F(2) have "en = (c, p)" by auto
        then have xc: "x = pos c" by (simp add: x_eq)
        have "y \<in> seen st'" if "manhattan x y = 1" "passable n m g y" for y
        proof -
          have "y \<in> seen st \<or> y \<in> set fr"
            using that fr by (auto simp: xc nbrs_manhattan seen_def)
          then show ?thesis by (simp add: seen')
        qed
        with ne show ?thesis by (simp add: closed_def xc)
      qed
    next
      assume "closed n m g e st x"
      then show ?thesis by (simp add: mono)
    qed
  qed
  from 1 2 3 4 5 show ?thesis
    unfolding search_inv_def st'_def [symmetric] fr_def [symmetric] by blast
qed

lemma search_inv_initial: "search_inv n m g s e (initial s)"
  by (auto simp: search_inv_def initial_def entry_ok_def walk_def seen_def keyp_def pos_def key_inj)


section \<open>The loops\<close>

text \<open>
  A property that holds of the initial locals and that every pass of a loop keeps holds of
  the state the loop stops in; and the loop stops with a result, since no pass throws on a
  well-formed grid.
\<close>

lemma todo_pop: "frontier st = en # rest \<Longrightarrow> todo n m (st\<lparr>frontier := rest\<rparr>) < todo n m st"
  by (simp add: todo_def)

lemma todo_pop_last: "frontier st = rest @ [en] \<Longrightarrow> todo n m (st\<lparr>frontier := rest\<rparr>) < todo n m st"
  by (simp add: todo_def)

lemma bfs_loop_rule:
  assumes "I st"
    and step: "\<And>st c p rest. I st \<Longrightarrow> frontier st = (c, p) # rest \<Longrightarrow> pos c \<noteq> pos e \<Longrightarrow>
       \<exists>st'. for_directions (try_visit n m g c p) directions (st\<lparr>frontier := rest\<rparr>) = Inr st'
             \<and> I st'"
  shows "\<exists>r st'. bfs_loop n m g e st = Inr r \<and> I st' \<and> final e st' r"
  using assms(1)
proof (induction "todo n m st" arbitrary: st rule: less_induct)
  case less
  show ?case
  proof (cases "frontier st")
    case Nil
    then have "bfs_loop n m g e st = Inr \<lparr>path = [], visited = visitedCells st, found = False\<rparr>"
      by (subst bfs_loop.simps) simp
    moreover from Nil have "final e st \<lparr>path = [], visited = visitedCells st, found = False\<rparr>"
      by (simp add: final_def)
    ultimately show ?thesis using less.prems by blast
  next
    case (Cons en rest)
    obtain c p where en: "en = (c, p)" by (cases en)
    show ?thesis
    proof (cases "pos c = pos e")
      case True
      with Cons en have "bfs_loop n m g e st = Inr \<lparr>path = p, visited = visitedCells st, found = True\<rparr>"
        by (subst bfs_loop.simps) (simp add: pos_eq_iff)
      moreover from Cons en True have "final e st \<lparr>path = p, visited = visitedCells st, found = True\<rparr>"
        by (auto simp: final_def)
      ultimately show ?thesis using less.prems by blast
    next
      case False
      from step [OF less.prems Cons [unfolded en] False] obtain st'
        where fd: "for_directions (try_visit n m g c p) directions (st\<lparr>frontier := rest\<rparr>) = Inr st'"
          and I': "I st'" by blast
      from for_directions_todo [OF fd] todo_pop [OF Cons] have "todo n m st' < todo n m st"
        by (rule le_less_trans)
      from less.hyps [OF this I'] obtain r st''
        where "bfs_loop n m g e st' = Inr r" "I st''" "final e st'' r" by blast
      moreover from Cons en False fd have "bfs_loop n m g e st = bfs_loop n m g e st'"
        by (subst bfs_loop.simps) (auto simp add: pos_eq_iff)
      ultimately show ?thesis by auto
    qed
  qed
qed

lemma dfs_loop_rule:
  assumes "I st"
    and step: "\<And>st c p rest. I st \<Longrightarrow> frontier st = rest @ [(c, p)] \<Longrightarrow> pos c \<noteq> pos e \<Longrightarrow>
       \<exists>st'. for_directions (try_visit n m g c p) directions (st\<lparr>frontier := rest\<rparr>) = Inr st'
             \<and> I st'"
  shows "\<exists>r st'. dfs_loop n m g e st = Inr r \<and> I st' \<and> final e st' r"
  using assms(1)
proof (induction "todo n m st" arbitrary: st rule: less_induct)
  case less
  show ?case
  proof (cases "frontier st" rule: rev_cases)
    case Nil
    then have "dfs_loop n m g e st = Inr \<lparr>path = [], visited = visitedCells st, found = False\<rparr>"
      by (subst dfs_loop.simps) simp
    moreover from Nil have "final e st \<lparr>path = [], visited = visitedCells st, found = False\<rparr>"
      by (simp add: final_def)
    ultimately show ?thesis using less.prems by blast
  next
    case (snoc rest en)
    obtain c p where en: "en = (c, p)" by (cases en)
    show ?thesis
    proof (cases "pos c = pos e")
      case True
      with snoc en have "dfs_loop n m g e st = Inr \<lparr>path = p, visited = visitedCells st, found = True\<rparr>"
        by (subst dfs_loop.simps) (simp add: pos_eq_iff)
      moreover from snoc en True have "final e st \<lparr>path = p, visited = visitedCells st, found = True\<rparr>"
        by (auto simp: final_def)
      ultimately show ?thesis using less.prems by blast
    next
      case False
      from step [OF less.prems snoc [unfolded en] False] obtain st'
        where fd: "for_directions (try_visit n m g c p) directions (st\<lparr>frontier := rest\<rparr>) = Inr st'"
          and I': "I st'" by blast
      from for_directions_todo [OF fd] todo_pop_last [OF snoc] have "todo n m st' < todo n m st"
        by (rule le_less_trans)
      from less.hyps [OF this I'] obtain r st''
        where "dfs_loop n m g e st' = Inr r" "I st''" "final e st'' r" by blast
      moreover from snoc en False fd have "dfs_loop n m g e st = dfs_loop n m g e st'"
        by (subst dfs_loop.simps) (auto simp add: pos_eq_iff)
      ultimately show ?thesis by auto
    qed
  qed
qed

lemma bfs_search_inv:
  assumes "wf_grid n m g"
  shows "\<exists>r st. bfs n m g s e = Inr r \<and> search_inv n m g s e st \<and> final e st r"
  unfolding bfs_def
proof (rule bfs_loop_rule [where I = "search_inv n m g s e"], goal_cases)
  case 1
  show ?case by (rule search_inv_initial)
next
  case (2 st c p rest)
  then have "(c, p) \<in> set (frontier st)" and "set rest \<subseteq> set (frontier st)"
    and "set (frontier st) \<subseteq> insert (c, p) (set rest)" by auto
  from search_inv_step [OF assms 2(1) this(1) 2(3) this(2,3)] show ?case
    by (simp add: expand_wf [OF assms])
qed

lemma dfs_search_inv:
  assumes "wf_grid n m g"
  shows "\<exists>r st. dfs n m g s e = Inr r \<and> search_inv n m g s e st \<and> final e st r"
  unfolding dfs_def
proof (rule dfs_loop_rule [where I = "search_inv n m g s e"], goal_cases)
  case 1
  show ?case by (rule search_inv_initial)
next
  case (2 st c p rest)
  then have "(c, p) \<in> set (frontier st)" and "set rest \<subseteq> set (frontier st)"
    and "set (frontier st) \<subseteq> insert (c, p) (set rest)" by auto
  from search_inv_step [OF assms 2(1) this(1) 2(3) this(2,3)] show ?case
    by (simp add: expand_wf [OF assms])
qed

text \<open>What the invariant says of a result.\<close>

lemma walk_stays:
  assumes cl: "\<And>x y. x \<in> S \<Longrightarrow> manhattan x y = 1 \<Longrightarrow> passable n m g y \<Longrightarrow> y \<in> S"
  shows "orthogonal xs \<Longrightarrow> list_all (passable n m g) (tl xs) \<Longrightarrow> xs \<noteq> [] \<Longrightarrow> hd xs \<in> S \<Longrightarrow> set xs \<subseteq> S"
proof (induction xs rule: orthogonal.induct)
  case (1 a b xs)
  then have "b \<in> S" using cl [of a b] by simp
  with 1 show ?case by simp
qed simp_all

lemma final_found:
  assumes "search_inv n m g s e st" and "final e st r" and "found r"
  shows "path r \<noteq> []" and "hd (path r) = s" and "pos (last (path r)) = pos e"
    and "walk n m g (map pos (path r))" and "\<forall>c \<in> set (tl (path r)). type c \<noteq> Wall"
proof -
  from assms(2,3) obtain c where c: "(c, path r) \<in> set (frontier st)" "pos c = pos e"
    by (auto simp: final_def)
  with assms(1) have "entry_ok n m g s (c, path r)" by (auto simp: search_inv_def)
  with c(2) show "path r \<noteq> []" and "hd (path r) = s" and "pos (last (path r)) = pos e"
    and "walk n m g (map pos (path r))" and "\<forall>c \<in> set (tl (path r)). type c \<noteq> Wall"
    by (simp_all add: entry_ok_def)
qed

lemma final_not_found:
  assumes inv: "search_inv n m g s e st" and fin: "final e st r" and nf: "\<not> found r"
  shows "path r = []" and "\<not> (\<exists>xs. walk n m g xs \<and> hd xs = pos s \<and> last xs = pos e)"
proof -
  from fin nf have empty: "frontier st = []" and "path r = []" by (auto simp: final_def)
  then show "path r = []" by simp
  from inv empty have cl: "\<And>x. x \<in> seen st \<Longrightarrow> closed n m g e st x"
    by (simp add: search_inv_def)
  from inv have s: "pos s \<in> seen st" by (simp add: search_inv_def seen_def)
  show "\<not> (\<exists>xs. walk n m g xs \<and> hd xs = pos s \<and> last xs = pos e)"
  proof
    assume "\<exists>xs. walk n m g xs \<and> hd xs = pos s \<and> last xs = pos e"
    then obtain xs where xs: "walk n m g xs" "hd xs = pos s" "last xs = pos e" by blast
    have "set xs \<subseteq> seen st"
    proof (rule walk_stays)
      fix x y assume "x \<in> seen st" "manhattan x y = 1" "passable n m g y"
      with cl [of x] show "y \<in> seen st" unfolding closed_def by blast
    qed (use xs s in \<open>simp_all add: walk_def\<close>)
    with xs have "pos e \<in> seen st" by (metis last_in_set subsetD walk_def)
    from cl [OF this] show False by (simp add: closed_def)
  qed
qed

lemma final_visited:
  assumes "search_inv n m g s e st" and "final e st r"
  shows "distinct (map pos (visited r))" and "pos s \<notin> pos ` set (visited r)"
  using assms by (simp_all add: search_inv_def final_def)


section \<open>The breadth-first invariant\<close>

lemma orthogonal_butlast: "orthogonal (ys @ [x]) \<Longrightarrow> orthogonal ys"
  by (induction ys rule: orthogonal.induct) auto

lemma orthogonal_last: "ys \<noteq> [] \<Longrightarrow> orthogonal (ys @ [x]) \<Longrightarrow> manhattan (last ys) x = 1"
  by (induction ys rule: orthogonal.induct) auto

lemma walk_snocD:
  assumes "walk n m g (ys @ [x])" and "ys \<noteq> []"
  shows "walk n m g ys" and "manhattan (last ys) x = 1" and "passable n m g x"
proof -
  from assms have o: "orthogonal (ys @ [x])" and l: "list_all (passable n m g) (tl ys @ [x])"
    by (simp_all add: walk_def)
  from o l assms(2) show "walk n m g ys" by (simp add: walk_def orthogonal_butlast)
  from o assms(2) show "manhattan (last ys) x = 1" by (rule orthogonal_last [rotated])
  from l show "passable n m g x" by simp
qed

lemma sorted_hd_le:
  "sorted (map f xs) \<Longrightarrow> x \<in> set xs \<Longrightarrow> f (hd xs) \<le> (f x :: nat)"
  by (cases xs) auto

lemma bfs_inv_step:
  assumes wf: "wf_grid n m g" and inv: "search_inv n m g s e st" and binv: "bfs_inv n m g s st"
    and fr_st: "frontier st = (c, p) # rest"
  shows "bfs_inv n m g s
           (pushed g p (fresh n m g (nbrs (pos c)) (visitedKeys st)) (st\<lparr>frontier := rest\<rparr>))"
proof -
  define fr where "fr = fresh n m g (nbrs (pos c)) (visitedKeys st)"
  define st' where "st' = pushed g p fr (st\<lparr>frontier := rest\<rparr>)"
  define news where "news = map (\<lambda>x. (the_cell g x, p @ [the_cell g x])) fr"
  have fr: "set fr = {x \<in> set (nbrs (pos c)). passable n m g x \<and> keyp x \<notin> visitedKeys st}"
    by (simp add: fr_def set_fresh)
  have pos_new: "pos (the_cell g x) = x" if "x \<in> set fr" for x
    using that passable_cell [OF wf, of x] fr by simp
  have seen': "seen st' = seen st \<union> set fr"
    by (simp add: st'_def seen_pushed)
  have front': "frontier st' = rest @ news"
    by (simp add: st'_def frontier_pushed news_def)
  have len_new: "length (snd en) = Suc (length p)" if "en \<in> set news" for en
    using that by (auto simp: news_def)
  from inv fr_st have p_ok: "entry_ok n m g s (c, p)" by (simp add: search_inv_def)
  then have p_ne: "p \<noteq> []" by (simp add: entry_ok_def)
  from binv fr_st have old_short: "\<And>en. en \<in> set (frontier st) \<Longrightarrow> shortest n m g s en"
    and old_sorted: "sorted (map (\<lambda>en. length (snd en)) ((c, p) # rest))"
    and old_bound: "\<And>en. en \<in> set rest \<Longrightarrow> length (snd en) \<le> Suc (length p)"
    and old_near: "\<And>xs. walk n m g xs \<Longrightarrow> hd xs = pos s \<Longrightarrow> length xs \<le> length p
                     \<Longrightarrow> last xs \<in> seen st"
    by (auto simp add: bfs_inv_def)
  from old_sorted have rest_ge: "\<And>en. en \<in> set rest \<Longrightarrow> length p \<le> length (snd en)"
    and rest_sorted: "sorted (map (\<lambda>en. length (snd en)) rest)" by auto
  have all_ge: "length p \<le> length (snd en)" and all_le: "length (snd en) \<le> Suc (length p)"
    if "en \<in> set (frontier st')" for en
  proof -
    from that have "en \<in> set rest \<or> en \<in> set news" by (simp add: front')
    then show "length p \<le> length (snd en)" using rest_ge [of en] len_new [of en] by fastforce
    from \<open>en \<in> set rest \<or> en \<in> set news\<close> show "length (snd en) \<le> Suc (length p)"
      using old_bound [of en] len_new [of en] by fastforce
  qed
  have 1: "shortest n m g s en" if "en \<in> set (frontier st')" for en
  proof (cases "en \<in> set rest")
    case True
    then show ?thesis using old_short fr_st by simp
  next
    case False
    with that front' obtain x where x: "x \<in> set fr" and en: "en = (the_cell g x, p @ [the_cell g x])"
      by (auto simp: news_def)
    have "Suc (length p) \<le> length xs" if w: "walk n m g xs" "hd xs = pos s" "last xs = x" for xs
    proof (rule ccontr)
      assume "\<not> Suc (length p) \<le> length xs"
      then have "length xs \<le> length p" by simp
      from old_near [OF w(1,2) this] w(3) have "x \<in> seen st" by simp
      with x fr show False by (simp add: seen_def)
    qed
    then show ?thesis by (simp add: shortest_def en pos_new [OF x])
  qed
  have 2: "sorted (map (\<lambda>en. length (snd en)) (frontier st'))"
  proof -
    have "map (\<lambda>en. length (snd en)) news = replicate (length fr) (Suc (length p))"
      by (simp add: news_def comp_def map_replicate_const)
    then have "sorted (map (\<lambda>en. length (snd en)) news)" by (simp add: sorted_replicate)
    with rest_sorted old_bound len_new show ?thesis
      by (auto simp: front' sorted_append)
  qed
  have 3: "length (snd en) \<le> Suc (length (snd (hd (frontier st'))))" if "en \<in> set (frontier st')" for en
  proof -
    from that have "frontier st' \<noteq> []" by auto
    then have "hd (frontier st') \<in> set (frontier st')" by simp
    from all_ge [OF this] all_le [OF that] show ?thesis by simp
  qed
  have 4: "last xs \<in> seen st'"
    if ne: "frontier st' \<noteq> []" and w: "walk n m g xs" "hd xs = pos s"
      and len: "length xs \<le> length (snd (hd (frontier st')))" for xs
  proof (cases "length xs \<le> length p")
    case True
    from old_near [OF w True] show ?thesis by (simp add: seen')
  next
    case False
    from ne have hd_in: "hd (frontier st') \<in> set (frontier st')" by simp
    from all_le [OF hd_in] len False have lx: "length xs = Suc (length p)"
      and lh: "length (snd (hd (frontier st'))) = Suc (length p)" by simp_all
    from w(1) have "xs \<noteq> []" by (simp add: walk_def)
    then obtain ys x where xs: "xs = ys @ [x]" by (cases xs rule: rev_cases) auto
    with lx p_ne have ys_ne: "ys \<noteq> []" by auto
    note d = walk_snocD [OF w(1) [unfolded xs] ys_ne]
    from w(2) xs ys_ne have "hd ys = pos s" by simp
    moreover from lx xs have "length ys \<le> length p" by simp
    ultimately have y_seen: "last ys \<in> seen st" using old_near d(1) by blast
    from inv have "last ys \<in> pos ` fst ` set (frontier st) \<or> closed n m g e st (last ys)"
      using y_seen by (simp add: search_inv_def)
    then have "x \<in> seen st'"
    proof
      assume "last ys \<in> pos ` fst ` set (frontier st)"
      then obtain en where en: "en \<in> set (frontier st)" and y: "last ys = pos (fst en)" by auto
      from old_short [OF en] d(1) \<open>hd ys = pos s\<close> y have "length (snd en) \<le> length ys"
        by (simp add: shortest_def)
      with lx xs have short: "length (snd en) \<le> length p" by simp
      have "en \<notin> set rest"
      proof
        assume "en \<in> set rest"
        then have "en \<in> set (frontier st')" by (simp add: front')
        from sorted_hd_le [OF 2 this] lh short show False by simp
      qed
      with en fr_st have "en = (c, p)" by simp
      with y have "last ys = pos c" by simp
      with d(2,3) have "x \<in> set (nbrs (pos c))" "passable n m g x"
        by (simp_all add: nbrs_manhattan)
      then have "x \<in> seen st \<or> x \<in> set fr" by (auto simp: fr seen_def)
      then show ?thesis by (simp add: seen')
    next
      assume "closed n m g e st (last ys)"
      with d(2,3) have "x \<in> seen st" unfolding closed_def by blast
      then show ?thesis by (simp add: seen')
    qed
    then show ?thesis by (simp add: xs)
  qed
  from 1 2 3 4 show ?thesis
    unfolding bfs_inv_def st'_def [symmetric] fr_def [symmetric] by blast
qed

lemma bfs_inv_initial: "bfs_inv n m g s (initial s)"
proof -
  have "last xs \<in> seen (initial s)" if "walk n m g xs" "hd xs = pos s" "length xs \<le> 1" for xs
  proof -
    from that(1) have "xs \<noteq> []" by (simp add: walk_def)
    with that(3) obtain x where "xs = [x]" by (cases xs) auto
    with that(2) show ?thesis by (simp add: seen_def initial_def keyp_def pos_def)
  qed
  moreover have "shortest n m g s (s, [s])"
    by (auto simp: shortest_def walk_def Suc_le_eq)
  ultimately show ?thesis by (simp add: bfs_inv_def initial_def)
qed

lemma bfs_both_inv:
  assumes "wf_grid n m g"
  shows "\<exists>r st. bfs n m g s e = Inr r \<and> (search_inv n m g s e st \<and> bfs_inv n m g s st) \<and> final e st r"
  unfolding bfs_def
proof (rule bfs_loop_rule [where I = "\<lambda>st. search_inv n m g s e st \<and> bfs_inv n m g s st"], goal_cases)
  case 1
  show ?case by (simp add: search_inv_initial bfs_inv_initial)
next
  case (2 st c p rest)
  then have "(c, p) \<in> set (frontier st)" and "set rest \<subseteq> set (frontier st)"
    and "set (frontier st) \<subseteq> insert (c, p) (set rest)" and inv: "search_inv n m g s e st"
    and binv: "bfs_inv n m g s st" by auto
  from search_inv_step [OF assms inv this(1) 2(3) this(2,3)] bfs_inv_step [OF assms inv binv 2(2)]
  show ?case
    by (simp add: expand_wf [OF assms])
qed

lemma final_shortest:
  assumes "bfs_inv n m g s st" and "final e st r" and "found r"
    and "walk n m g xs" and "hd xs = pos s" and "last xs = pos e"
  shows "length (path r) \<le> length xs"
proof -
  from assms(2,3) obtain c where c: "(c, path r) \<in> set (frontier st)" "pos c = pos e"
    by (auto simp: final_def)
  with assms(1) have "shortest n m g s (c, path r)" by (auto simp: bfs_inv_def)
  with c(2) assms(4-6) show ?thesis by (simp add: shortest_def)
qed


section \<open>Paths of cells and paths of positions\<close>

lemma orthogonal_nth:
  "orthogonal xs \<longleftrightarrow> (\<forall>i. Suc i < length xs \<longrightarrow> manhattan (xs ! i) (xs ! Suc i) = 1)"
proof (induction xs rule: orthogonal.induct)
  case (1 a b xs)
  show ?case
  proof
    assume l: "orthogonal (a # b # xs)"
    show "\<forall>i. Suc i < length (a # b # xs) \<longrightarrow> manhattan ((a # b # xs) ! i) ((a # b # xs) ! Suc i) = 1"
    proof (intro allI impI)
      fix i assume "Suc i < length (a # b # xs)"
      with l 1 show "manhattan ((a # b # xs) ! i) ((a # b # xs) ! Suc i) = 1"
        by (cases i) auto
    qed
  next
    assume r: "\<forall>i. Suc i < length (a # b # xs) \<longrightarrow> manhattan ((a # b # xs) ! i) ((a # b # xs) ! Suc i) = 1"
    from r [rule_format, of 0] have "manhattan a b = 1" by simp
    moreover have "manhattan ((b # xs) ! i) ((b # xs) ! Suc i) = 1" if "Suc i < length (b # xs)" for i
      using r [rule_format, of "Suc i"] that by simp
    ultimately show "orthogonal (a # b # xs)" using 1 by simp
  qed
qed simp_all

lemma adjacent_cells_iff: "adjacent_cells p \<longleftrightarrow> orthogonal (map pos p)"
  by (auto simp: adjacent_cells_def orthogonal_nth)

lemma wall_free_path_walk: "wall_free_path n m g xs \<Longrightarrow> walk n m g xs"
  by (cases xs) (auto simp: wall_free_path_def walk_def)

lemma walk_wall_free_path: "walk n m g xs \<Longrightarrow> passable n m g (hd xs) \<Longrightarrow> wall_free_path n m g xs"
  by (cases xs) (auto simp: wall_free_path_def walk_def)

text \<open>
  From a start inside the grid and not on a wall, the paths the searches follow are the
  wall-free paths.
\<close>

lemma walk_iff_wall_free_path:
  assumes "passable n m g (pos s)"
  shows "(\<exists>xs. walk n m g xs \<and> connects xs s e) \<longleftrightarrow>
         (\<exists>xs. wall_free_path n m g xs \<and> connects xs s e)"
proof
  assume "\<exists>xs. walk n m g xs \<and> connects xs s e"
  then obtain xs where "walk n m g xs" "connects xs s e" by blast
  with assms have "wall_free_path n m g xs"
    by (intro walk_wall_free_path) (simp_all add: connects_def)
  with \<open>connects xs s e\<close> show "\<exists>xs. wall_free_path n m g xs \<and> connects xs s e" by blast
next
  assume "\<exists>xs. wall_free_path n m g xs \<and> connects xs s e"
  then show "\<exists>xs. walk n m g xs \<and> connects xs s e"
    using wall_free_path_walk by blast
qed

text \<open>
  Both searches return a result, and they find the end exactly when a path of passable steps
  leads to it.
\<close>

lemma found_iff_walk:
  assumes "wf_grid n m g"
  shows "\<exists>rb rd. bfs n m g s e = Inr rb \<and> dfs n m g s e = Inr rd \<and>
           found rb = (\<exists>xs. walk n m g xs \<and> connects xs s e) \<and>
           found rd = (\<exists>xs. walk n m g xs \<and> connects xs s e) \<and>
           (\<not> found rb \<longrightarrow> path rb = []) \<and> (\<not> found rd \<longrightarrow> path rd = [])"
proof -
  have *: "found r = (\<exists>xs. walk n m g xs \<and> connects xs s e) \<and> (\<not> found r \<longrightarrow> path r = [])"
    if inv: "search_inv n m g s e st" and fin: "final e st r" for r st
  proof (cases "found r")
    case True
    from final_found [OF inv fin True] have "walk n m g (map pos (path r))"
      and "connects (map pos (path r)) s e" by (simp_all add: connects_def hd_map last_map)
    with True show ?thesis by blast
  next
    case False
    from final_not_found [OF inv fin False] False show ?thesis
      by (auto simp: connects_def)
  qed
  from bfs_search_inv [OF assms, of s e] dfs_search_inv [OF assms, of s e] * show ?thesis
    by metis
qed

section \<open>Two runs side by side\<close>









section \<open>The store and the grid the handlers maintain\<close>

text \<open>
  Reading a matrix of cells back from the store gives the cells that were stored, and no
  handler changes a coordinate or the shape of the grid, so the grid of the page stays
  well-formed.
\<close>

lemma deref_alloc: "alloc h cs = (h', g') \<Longrightarrow> deref h' g' = cs \<and> (\<exists>ext. h' = h @ ext)"
proof (induction cs arbitrary: h h' g')
  case Nil
  then show ?case by (simp add: deref_def)
next
  case (Cons r rs)
  obtain h1 g1 where a: "alloc (h @ r) rs = (h1, g1)" by (cases "alloc (h @ r) rs")
  with Cons.prems have h': "h' = h1" and g': "g' = [length h..<length h + length r] # g1"
    by simp_all
  from Cons.IH [OF a] obtain ext where d: "deref h1 g1 = rs" and e: "h1 = (h @ r) @ ext" by blast
  have "map (\<lambda>a. h1 ! a) [length h..<length h + length r] = r"
    by (rule nth_equalityI) (simp_all add: e nth_append)
  with d e show ?case by (simp add: h' g' deref_def)
qed

lemma cells_clearPath: "cells (clearPath s) = clearPath_cells (cells s)"
proof -
  obtain h g where a: "alloc (heap s) (clearPath_cells (cells s)) = (h, g)"
    by (cases "alloc (heap s) (clearPath_cells (cells s))")
  with deref_alloc [OF a] show ?thesis by (simp add: clearPath_def cells_def)
qed

lemma cells_clearWalls: "cells (clearWalls s) = clearWalls_cells (cells s)"
proof -
  obtain h g where a: "alloc (heap s) (clearWalls_cells (cells s)) = (h, g)"
    by (cases "alloc (heap s) (clearWalls_cells (cells s))")
  with deref_alloc [OF a] show ?thesis by (simp add: clearWalls_def cells_def)
qed

lemma cells_initializeGrid: "cells (initializeGrid s) = fresh_grid (rows s) (cols s)"
proof -
  obtain h g where a: "alloc (heap s) (fresh_grid (rows s) (cols s)) = (h, g)"
    by (cases "alloc (heap s) (fresh_grid (rows s) (cols s))")
  with deref_alloc [OF a] show ?thesis by (simp add: initializeGrid_def cells_def)
qed

lemma wf_grid_cong:
  assumes "map (map pos) g' = map (map pos) g"
  shows "wf_grid n m g' = wf_grid n m g"
proof -
  from assms have l: "length g' = length g" by (metis length_map)
  have r: "map pos (g' ! i) = map pos (g ! i)" if "i < length g" for i
    using assms l that by (metis nth_map)
  have rl: "length (g' ! i) = length (g ! i)" if "i < length g" for i
    using r [OF that] by (metis length_map)
  have c: "pos (g' ! i ! j) = pos (g ! i ! j)" if "i < length g" "j < length (g ! i)" for i j
    using r [OF that(1)] rl [OF that(1)] that(2) by (metis nth_map)
  have "row (g' ! i ! j) = row (g ! i ! j) \<and> col (g' ! i ! j) = col (g ! i ! j)"
    if "i < length g" "j < length (g ! i)" for i j
    using c [OF that] by (simp add: pos_def)
  with l rl show ?thesis unfolding wf_grid_def by auto
qed

lemma pos_set_type: "pos (set_type h a t ! b) = pos (h ! b)"
proof (cases "a < length h")
  case True
  then show ?thesis by (simp add: set_type_def nth_list_update pos_def)
next
  case False
  then have "h[a := (h ! a)\<lparr>type := t\<rparr>] = h" by (simp add: list_update_beyond)
  then show ?thesis by (simp add: set_type_def)
qed

lemma positions_set_type: "map (map pos) (deref (set_type h a t) g) = map (map pos) (deref h g)"
  by (simp add: deref_def pos_set_type)

lemma wf_grid_set_type: "wf_grid n m (deref (set_type h a t) g) = wf_grid n m (deref h g)"
  by (rule wf_grid_cong) (rule positions_set_type)

lemma clear_at_cases:
  assumes "clear_at s r = Inr h"
  shows "h = heap s \<or> (\<exists>b. h = set_type (heap s) b Empty)"
  using assms by (auto simp: clear_at_def split: option.splits)

lemma wf_fresh_grid: "0 \<le> n \<Longrightarrow> 0 \<le> m \<Longrightarrow> wf_grid n m (fresh_grid n m)"
  by (simp add: wf_grid_def fresh_grid_def)

lemma wf_initializeGrid:
  assumes "0 \<le> rows s" and "0 \<le> cols s"
  shows "wf_grid (rows (initializeGrid s)) (cols (initializeGrid s)) (cells (initializeGrid s))"
proof -
  have "rows (initializeGrid s) = rows s" "cols (initializeGrid s) = cols s"
    by (simp_all add: initializeGrid_def split: prod.splits)
  with assms show ?thesis by (simp add: cells_initializeGrid wf_fresh_grid)
qed

lemma wf_handleCellClick:
  assumes "wf_grid (rows s) (cols s) (cells s)" and "handleCellClick s r c = Inr s'"
  shows "wf_grid (rows s') (cols s') (cells s')"
proof -
  have *: "wf_grid (rows s) (cols s) (deref h (grid s))" if "clear_at s x = Inr h" for x h
    using clear_at_cases [OF that] assms(1) by (auto simp: cells_def wf_grid_set_type)
  from assms show ?thesis
    by (auto simp: handleCellClick_def cells_def wf_grid_set_type dest: *
        split: if_splits option.splits Mode.splits sum.splits)
qed

lemma wf_clear:
  assumes "wf_grid n m (cells s)"
  shows "wf_grid n m (cells (clearPath s))" and "wf_grid n m (cells (clearWalls s))"
proof -
  have "map (map pos) (clearPath_cells g) = map (map pos) g" for g
    by (simp add: clearPath_cells_def pos_def comp_def)
  from wf_grid_cong [OF this] assms show "wf_grid n m (cells (clearPath s))"
    by (simp add: cells_clearPath)
  have "map (map pos) (clearWalls_cells g) = map (map pos) g" for g
    by (simp add: clearWalls_cells_def pos_def comp_def)
  from wf_grid_cong [OF this] assms show "wf_grid n m (cells (clearWalls s))"
    by (simp add: cells_clearWalls)
qed

text \<open>
  The traversal that \<open>visualizePath\<close> runs depends on the state only through the
  dimensions, the cells of the grid, the cells the endpoints refer to and the chosen
  algorithm: where the cells are stored, the mode, the message and the running flag do not
  matter.
\<close>

lemma traversal_reads_cells_only:
  assumes "rows s1 = rows s2" and "cols s1 = cols s2" and "cells s1 = cells s2"
    and "algorithm s1 = algorithm s2"
    and "map_option (\<lambda>a. heap s1 ! a) (start s1) = map_option (\<lambda>a. heap s2 ! a) (start s2)"
    and "map_option (\<lambda>a. heap s1 ! a) (end' s1) = map_option (\<lambda>a. heap s2 ! a) (end' s2)"
  shows "snd (visualizePath s1) = snd (visualizePath s2)"
  using assms
  by (cases "start s1"; cases "start s2"; cases "end' s1"; cases "end' s2")
    (simp_all add: visualizePath_def split: prod.splits)

section \<open>The concrete grids and states\<close>

lemma wf_maze: "wf_grid 3 3 maze"
  by code_simp

lemma maze_runs:
  "bfs 3 3 maze maze_start maze_end = Inr maze_bfs"
  "dfs 3 3 maze maze_start maze_end = Inr maze_dfs"
  by code_simp+

lemma barrier_no_walk: "\<not> (\<exists>xs. walk 3 3 barrier xs \<and> connects xs barrier_start barrier_end)"
proof
  assume "\<exists>xs. walk 3 3 barrier xs \<and> connects xs barrier_start barrier_end"
  then obtain xs where w: "walk 3 3 barrier xs" and c: "connects xs barrier_start barrier_end"
    by blast
  define S :: "(int \<times> int) set" where "S = {x. fst x = 0}"
  have "set xs \<subseteq> S"
  proof (rule walk_stays)
    fix x y :: "int \<times> int"
    assume x: "x \<in> S" and adj: "manhattan x y = 1" and p: "passable 3 3 barrier y"
    from p have b: "fst y = 0 \<or> fst y = 1 \<or> fst y = 2" "snd y = 0 \<or> snd y = 1 \<or> snd y = 2"
      by (auto simp: passable_def)
    with p have "fst y \<noteq> 1"
      by (auto simp: passable_def cell_at_def barrier_def)
    with x adj b(1) show "y \<in> S" by (auto simp: S_def manhattan_def)
  qed (use w c in \<open>simp_all add: walk_def connects_def S_def pos_def barrier_start_def\<close>)
  moreover from w c have "pos barrier_end \<in> set xs"
    by (metis connects_def last_in_set)
  ultimately show False by (auto simp: S_def pos_def barrier_end_def)
qed

text \<open>
  Two clicks place the endpoints; with the mode set back to \<open>start\<close>, a click on the end
  cell empties the start cell and keeps the start reference, and a click on that cell in mode
  \<open>wall\<close> then makes it a wall: the page reaches a state whose start reference
  designates a wall.
\<close>

lemma start_walled_reached:
  "(case start_walled of
      Inl e \<Rightarrow> False
    | Inr s \<Rightarrow> cells s = walled_grid \<and> rows s = 5 \<and> cols s = 5 \<and>
               map_option (\<lambda>a. heap s ! a) (start s) = Some walled_start \<and>
               map_option (\<lambda>a. heap s ! a) (end' s) = Some walled_end)"
  by code_simp

text \<open>Two clicks on the fresh grid give the grid and the endpoints of the scenario.\<close>

lemma scenario_reached:
  "(case after (handleCellClick blank 0 0) (\<lambda>s. handleCellClick s 0 4) of
      Inl e \<Rightarrow> False
    | Inr s \<Rightarrow> cells s = scenario_grid \<and> rows s = 5 \<and> cols s = 5 \<and>
               map_option (\<lambda>a. heap s ! a) (start s) = Some scenario_start \<and>
               map_option (\<lambda>a. heap s ! a) (end' s) = Some scenario_end)"
  by code_simp

lemma wf_grid_5x5:
  assumes "wf_grid 5 5 g"
  shows "g = map (\<lambda>i. map (\<lambda>j. \<lparr>row = int i, col = int j, type = type (g ! i ! j)\<rparr>) [0..<5]) [0..<5]"
proof (rule nth_equalityI)
  from wf_grid_rows(1) [OF assms] show l: "length g = length (map (\<lambda>i. map (\<lambda>j. \<lparr>row = int i, col = int j, type = type (g ! i ! j)\<rparr>) [0..<5]) [0..<5])"
    by simp
  fix i assume i: "i < length g"
  with l have i5: "i < 5" by simp
  from wf_grid_rows(2) [OF assms i] have li: "length (g ! i) = 5" by simp
  have "g ! i = map (\<lambda>j. \<lparr>row = int i, col = int j, type = type (g ! i ! j)\<rparr>) [0..<5]"
  proof (rule nth_equalityI)
    from li show "length (g ! i) = length (map (\<lambda>j. \<lparr>row = int i, col = int j, type = type (g ! i ! j)\<rparr>) [0..<5])"
      by simp
    fix j assume j: "j < length (g ! i)"
    from wf_grid_rows(3) [OF assms i j] j li
    show "g ! i ! j = map (\<lambda>j. \<lparr>row = int i, col = int j, type = type (g ! i ! j)\<rparr>) [0..<5] ! j"
      by (simp add: pos_def)
  qed
  with i5 show "g ! i = map (\<lambda>i. map (\<lambda>j. \<lparr>row = int i, col = int j, type = type (g ! i ! j)\<rparr>) [0..<5]) [0..<5] ! i"
    by simp
qed

lemma bfs_5x5_typed:
  assumes t: "\<And>i j. t i j \<noteq> Wall" and s: "row s = 0" "col s = 0" and e: "row e = 0" "col e = 4"
  shows "\<exists>r. bfs 5 5 (map (\<lambda>i. map (\<lambda>j. \<lparr>row = int i, col = int j, type = t i j\<rparr>) [0..<5]) [0..<5]) s e = Inr r \<and> found r \<and>
            map pos (path r) = [(0, 0), (0, 1), (0, 2), (0, 3), (0, 4)]"
  by (simp add: bfs_def initial_def try_visit_def directions_def key_inj cell_at_def upt_rec t s e
      pos_def bfs_loop.simps)

section \<open>Claims\<close>

text \<open>
  C1. On a well-formed grid, whenever some wall-free orthogonal path leads from the start to
  the end, \<open>bfs\<close> returns a result with \<open>found = true\<close> whose path is itself a wall-free
  path from the start to the end and whose edge count (path length minus one) is the minimum
  over all wall-free paths from the start to the end.
\<close>

theorem bfs_shortest_path:
  assumes "wf_grid n m g" and "wall_free_path n m g xs" and "connects xs s e"
  shows "\<exists>r. bfs n m g s e = Inr r \<and> found r \<and>
             wall_free_path n m g (map pos (path r)) \<and> connects (map pos (path r)) s e \<and>
             (\<forall>ys. wall_free_path n m g ys \<and> connects ys s e \<longrightarrow> length (path r) - 1 \<le> length ys - 1) \<and>
             length (path r) - 1 = min_edges n m g s e"
proof -
  from bfs_both_inv [OF assms(1)] obtain r st where r: "bfs n m g s e = Inr r"
    and inv: "search_inv n m g s e st" and binv: "bfs_inv n m g s st" and fin: "final e st r"
    by blast
  from assms(2,3) have w: "walk n m g xs" "hd xs = pos s" "last xs = pos e"
    by (simp_all add: wall_free_path_walk connects_def)
  have f: "found r"
  proof (rule ccontr)
    assume "\<not> found r"
    from final_not_found(2) [OF inv fin this] w show False by blast
  qed
  note p = final_found [OF inv fin f]
  from assms(2,3) have "passable n m g (pos s)"
    by (cases xs) (auto simp: wall_free_path_def connects_def)
  with p(1,2,4) have wfp: "wall_free_path n m g (map pos (path r))"
    by (intro walk_wall_free_path) (simp_all add: hd_map)
  from p(1,2,3) have con: "connects (map pos (path r)) s e"
    by (simp add: connects_def hd_map last_map)
  have le: "length (path r) \<le> length ys" if "wall_free_path n m g ys" "connects ys s e" for ys
  proof -
    from that(1) have "walk n m g ys" by (rule wall_free_path_walk)
    from final_shortest [OF binv fin f this] that(2) show ?thesis
      by (simp add: connects_def)
  qed
  have "min_edges n m g s e = length (path r) - 1"
    unfolding min_edges_def
  proof (rule Least_equality)
    from wfp con show "\<exists>xs. wall_free_path n m g xs \<and> connects xs s e \<and> length xs - 1 = length (path r) - 1"
      by (intro exI [of _ "map pos (path r)"]) simp
  next
    fix k assume "\<exists>xs. wall_free_path n m g xs \<and> connects xs s e \<and> length xs - 1 = k"
    then obtain ys where "wall_free_path n m g ys" "connects ys s e" "length ys - 1 = k" by blast
    with le [of ys] show "length (path r) - 1 \<le> k" by simp
  qed
  with r f wfp con le show ?thesis by (auto intro!: diff_le_mono)
qed

theorem bfs_shortest_path_witness:
  "wf_grid 3 3 maze \<and> wall_free_path 3 3 maze maze_detour \<and>
   connects maze_detour maze_start maze_end \<and> length maze_detour - 1 = 6 \<and>
   (\<exists>r. bfs 3 3 maze maze_start maze_end = Inr r \<and> found r \<and> length (path r) - 1 = 4) \<and>
   min_edges 3 3 maze maze_start maze_end = 4"
proof -
  have h1: "wf_grid 3 3 maze" by code_simp
  have h2: "wall_free_path 3 3 maze maze_detour" by code_simp
  have h3: "connects maze_detour maze_start maze_end" by code_simp
  have ev: "length (path (projr (bfs 3 3 maze maze_start maze_end))) = 5" by code_simp
  from bfs_shortest_path [OF h1 h2 h3] obtain r where r: "bfs 3 3 maze maze_start maze_end = Inr r"
    and f: "found r" and m: "length (path r) - 1 = min_edges 3 3 maze maze_start maze_end" by blast
  from r ev have "length (path r) = 5" by simp
  with r f m h1 h2 h3 show ?thesis by (simp add: maze_detour_def)
qed

text \<open>
  C2. The claim is that a click on the end cell in mode \<open>start\<close> leaves the grid and the
  mode unchanged, so that a start cell placed before keeps its type. On a fresh
  \<open>5 \<times> 5\<close> grid with the start placed at \<open>(0, 0)\<close> and the end at \<open>(0, 1)\<close>, the mode
  set back to \<open>start\<close> and the end cell clicked, \<open>handleCellClick\<close> returns before any
  setter runs, and the mode and the start reference are as before; but the cell at
  \<open>(0, 0)\<close> has been written to \<open>empty\<close> ahead of the guard, so the start reference now
  designates an empty cell.
\<close>

theorem click_on_end_clears_start:
  "(case endpoints_placed of
      Inl e \<Rightarrow> False
    | Inr s \<Rightarrow>
        (case handleCellClick (setMode s ModeStart) 0 1 of
           Inl e \<Rightarrow> False
         | Inr s' \<Rightarrow>
             type (cells s ! 0 ! 0) = Start \<and> type (cells s ! 0 ! 1) = End \<and>
             map_option (\<lambda>a. pos (heap s ! a)) (start s) = Some (0, 0) \<and>
             type (cells s' ! 0 ! 0) = Empty \<and> cells s' \<noteq> cells s \<and>
             mode s' = ModeStart \<and> start s' = start s))"
  by code_simp

text \<open>
  C3, as stated, fails where the start cell is a wall: the searches never inspect the cell
  they start from and return it as the first cell of the path. The grid and the endpoints
  below are those of \<open>start_walled\<close>.
\<close>

theorem path_wall_counterexample:
  "wf_grid 5 5 walled_grid \<and>
   bfs 5 5 walled_grid walled_start walled_end =
     Inr \<lparr>path = [walled_start, walled_end],
          visited = [walled_end, \<lparr>row = 1, col = 0, type = Empty\<rparr>],
          found = True\<rparr> \<and>
   type walled_start = Wall"
  by code_simp

text \<open>
  C3 (amended). On a well-formed grid, every path returned with \<open>found = true\<close> by \<open>bfs\<close>
  or \<open>dfs\<close> begins with the start cell as it was passed in, has every consecutive pair of
  cells at Manhattan distance exactly 1, and has no cell of type \<open>wall\<close> after its first
  cell; so it has no cell of type \<open>wall\<close> at all unless the start cell is one.
\<close>

theorem path_steps_sound:
  assumes "wf_grid n m g" and "bfs n m g s e = Inr r \<or> dfs n m g s e = Inr r" and "found r"
  shows "path r \<noteq> [] \<and> hd (path r) = s \<and> adjacent_cells (path r) \<and>
         (\<forall>c \<in> set (tl (path r)). type c \<noteq> Wall) \<and>
         (type s \<noteq> Wall \<longrightarrow> (\<forall>c \<in> set (path r). type c \<noteq> Wall))"
proof -
  from bfs_search_inv [OF assms(1), of s e] dfs_search_inv [OF assms(1), of s e] assms(2)
  obtain st where inv: "search_inv n m g s e st" and fin: "final e st r" by auto
  note p = final_found [OF inv fin assms(3)]
  from p(1,2) have "set (path r) = insert s (set (tl (path r)))"
    by (cases "path r") auto
  with p show ?thesis
    by (simp add: adjacent_cells_iff walk_def)
qed

theorem path_steps_sound_witness:
  "wf_grid 3 3 maze \<and>
   (bfs 3 3 maze maze_start maze_end = Inr maze_dfs \<or> dfs 3 3 maze maze_start maze_end = Inr maze_dfs) \<and>
   found maze_dfs \<and> path maze_dfs \<noteq> [] \<and> hd (path maze_dfs) = maze_start \<and>
   adjacent_cells (path maze_dfs) \<and> type maze_start \<noteq> Wall \<and>
   list_all (\<lambda>c. type c \<noteq> Wall) (path maze_dfs)"
proof -
  have h2: "bfs 3 3 maze maze_start maze_end = Inr maze_dfs \<or> dfs 3 3 maze maze_start maze_end = Inr maze_dfs"
    by (simp add: maze_runs)
  have h3: "found maze_dfs" by (simp add: maze_dfs_def)
  have h4: "type maze_start \<noteq> Wall" by (simp add: maze_start_def)
  from path_steps_sound [OF wf_maze h2 h3] wf_maze h2 h3 h4 show ?thesis
    by (simp add: list_all_iff)
qed

text \<open>
  C4, as stated, fails where the start cell is a wall: no wall-free path begins there, yet
  the search steps from it onto the end and reports \<open>found = true\<close>.
\<close>

theorem no_path_counterexample:
  "wf_grid 5 5 walled_grid \<and>
   \<not> (\<exists>xs. wall_free_path 5 5 walled_grid xs \<and> connects xs walled_start walled_end) \<and>
   bfs 5 5 walled_grid walled_start walled_end =
     Inr \<lparr>path = [walled_start, walled_end],
          visited = [walled_end, \<lparr>row = 1, col = 0, type = Empty\<rparr>],
          found = True\<rparr>"
proof -
  have "\<not> passable 5 5 walled_grid (pos walled_start)" by code_simp
  then have "\<not> (\<exists>xs. wall_free_path 5 5 walled_grid xs \<and> connects xs walled_start walled_end)"
    using hd_in_set by (fastforce simp: wall_free_path_def connects_def list_all_iff)
  moreover have "wf_grid 5 5 walled_grid" by code_simp
  moreover have "bfs 5 5 walled_grid walled_start walled_end =
     Inr \<lparr>path = [walled_start, walled_end],
          visited = [walled_end, \<lparr>row = 1, col = 0, type = Empty\<rparr>],
          found = True\<rparr>" by code_simp
  ultimately show ?thesis by blast
qed

text \<open>
  C4 (amended). On a well-formed grid, if no orthogonal path leads from the start to the end
  whose positions after the first are all inside the grid and not walls, then \<open>bfs\<close> and
  \<open>dfs\<close> both return \<open>found = false\<close> and an empty path.
\<close>

theorem unreachable_not_found:
  assumes "wf_grid n m g" and "\<not> (\<exists>xs. walk n m g xs \<and> connects xs s e)"
  shows "\<exists>rb rd. bfs n m g s e = Inr rb \<and> dfs n m g s e = Inr rd \<and>
           \<not> found rb \<and> path rb = [] \<and> \<not> found rd \<and> path rd = []"
  using found_iff_walk [OF assms(1), of s e] assms(2) by auto

theorem unreachable_not_found_witness:
  "wf_grid 3 3 barrier \<and> \<not> (\<exists>xs. walk 3 3 barrier xs \<and> connects xs barrier_start barrier_end) \<and>
   (\<exists>rb rd. bfs 3 3 barrier barrier_start barrier_end = Inr rb \<and>
            dfs 3 3 barrier barrier_start barrier_end = Inr rd \<and>
            \<not> found rb \<and> path rb = [] \<and> \<not> found rd \<and> path rd = [])"
proof -
  have h1: "wf_grid 3 3 barrier" by code_simp
  from unreachable_not_found [OF h1 barrier_no_walk] h1 barrier_no_walk show ?thesis by blast
qed

text \<open>
  C5. On every well-formed \<open>5 \<times> 5\<close> grid without walls, with the start at \<open>(0, 0)\<close> and
  the end at \<open>(0, 4)\<close>, \<open>bfs\<close> returns \<open>found = true\<close> and a path through exactly
  \<open>(0,0), (0,1), (0,2), (0,3), (0,4)\<close>, of edge count 4.
\<close>

theorem bfs_5x5_scenario:
  assumes "wf_grid 5 5 g" and "no_walls g" and "pos s = (0, 0)" and "pos e = (0, 4)"
  shows "\<exists>r. bfs 5 5 g s e = Inr r \<and> found r \<and>
             map pos (path r) = [(0, 0), (0, 1), (0, 2), (0, 3), (0, 4)] \<and>
             length (path r) - 1 = 4"
proof -
  define t where "t i j = (if i < 5 \<and> j < 5 then type (g ! i ! j) else Empty)" for i j :: nat
  have len: "length g = 5" "\<And>i. i < 5 \<Longrightarrow> length (g ! i) = 5"
    using wf_grid_rows(1,2) [OF assms(1)] by auto
  have "t i j \<noteq> Wall" for i j
  proof (cases "i < 5 \<and> j < 5")
    case True
    with len have "g ! i \<in> set g" and "g ! i ! j \<in> set (g ! i)" by simp_all
    with assms(2) True show ?thesis by (simp add: t_def no_walls_def)
  next
    case False
    then show ?thesis by (auto simp: t_def)
  qed
  note tw = this
  from assms(3,4) have se: "row s = 0" "col s = 0" "row e = 0" "col e = 4"
    by (simp_all add: pos_def)
  have geq: "map (\<lambda>i. map (\<lambda>j. \<lparr>row = int i, col = int j, type = t i j\<rparr>) [0..<5]) [0..<5] = g"
  proof -
    have "map (\<lambda>i. map (\<lambda>j. \<lparr>row = int i, col = int j, type = t i j\<rparr>) [0..<5]) [0..<5] =
          map (\<lambda>i. map (\<lambda>j. \<lparr>row = int i, col = int j, type = type (g ! i ! j)\<rparr>) [0..<5]) [0..<5]"
      by (simp add: t_def)
    also have "\<dots> = g" by (rule wf_grid_5x5 [OF assms(1), symmetric])
    finally show ?thesis .
  qed
  from bfs_5x5_typed [of t s e, OF tw se]
  have "\<exists>r. bfs 5 5 g s e = Inr r \<and> found r \<and>
            map pos (path r) = [(0, 0), (0, 1), (0, 2), (0, 3), (0, 4)]"
    unfolding geq .
  then obtain r where r: "bfs 5 5 g s e = Inr r \<and> found r \<and>
            map pos (path r) = [(0, 0), (0, 1), (0, 2), (0, 3), (0, 4)]" ..
  then have p: "map pos (path r) = [(0, 0), (0, 1), (0, 2), (0, 3), (0, 4)]" by (elim conjE)
  have "length (map pos (path r)) = 5" by (simp only: p) simp
  then have "length (path r) - 1 = 4" by simp
  with r show ?thesis by (intro exI [of _ r]) simp
qed

theorem bfs_5x5_scenario_witness:
  "wf_grid 5 5 scenario_grid \<and> no_walls scenario_grid \<and>
   pos scenario_start = (0, 0) \<and> pos scenario_end = (0, 4) \<and>
   (\<exists>r. bfs 5 5 scenario_grid scenario_start scenario_end = Inr r \<and> found r \<and>
        map pos (path r) = [(0, 0), (0, 1), (0, 2), (0, 3), (0, 4)] \<and> length (path r) - 1 = 4)"
proof -
  have h1: "wf_grid 5 5 scenario_grid" by code_simp
  have h2: "no_walls scenario_grid" by code_simp
  have h3: "pos scenario_start = (0, 0)" by code_simp
  have h4: "pos scenario_end = (0, 4)" by code_simp
  from bfs_5x5_scenario [OF h1 h2 h3 h4] h1 h2 h3 h4 show ?thesis by blast
qed



text \<open>
  C7. For every state, the grid after \<open>clearPath\<close> twice holds the same cells as after
  \<open>clearPath\<close> once, and likewise for \<open>clearWalls\<close>; \<open>clearPath\<close> turns the type of
  every \<open>path\<close> and \<open>visited\<close> cell into \<open>empty\<close> and keeps \<open>start\<close>, \<open>end\<close>,
  \<open>wall\<close> (and \<open>empty\<close>), and \<open>clearWalls\<close> turns every \<open>wall\<close> into \<open>empty\<close> and
  keeps every other type; neither changes a coordinate.
\<close>

theorem clear_idempotent:
  "cells (clearPath (clearPath s)) = cells (clearPath s) \<and>
   cells (clearWalls (clearWalls s)) = cells (clearWalls s) \<and>
   cells (clearPath s) =
     map (map (\<lambda>c. c\<lparr>type := (case type c of Path \<Rightarrow> Empty | Visited \<Rightarrow> Empty
                               | Empty \<Rightarrow> Empty | Start \<Rightarrow> Start | End \<Rightarrow> End | Wall \<Rightarrow> Wall)\<rparr>))
       (cells s) \<and>
   cells (clearWalls s) =
     map (map (\<lambda>c. c\<lparr>type := (case type c of Wall \<Rightarrow> Empty | Empty \<Rightarrow> Empty | Start \<Rightarrow> Start
                               | End \<Rightarrow> End | Path \<Rightarrow> Path | Visited \<Rightarrow> Visited)\<rparr>))
       (cells s)"
proof -
  have 1: "clearPath_cells g =
      map (map (\<lambda>c. c\<lparr>type := (case type c of Path \<Rightarrow> Empty | Visited \<Rightarrow> Empty
                               | Empty \<Rightarrow> Empty | Start \<Rightarrow> Start | End \<Rightarrow> End | Wall \<Rightarrow> Wall)\<rparr>)) g" for g
    unfolding clearPath_cells_def
    by (intro map_cong refl) (simp split: CellType.splits)
  have 2: "clearWalls_cells g =
     map (map (\<lambda>c. c\<lparr>type := (case type c of Wall \<Rightarrow> Empty | Empty \<Rightarrow> Empty | Start \<Rightarrow> Start
                               | End \<Rightarrow> End | Path \<Rightarrow> Path | Visited \<Rightarrow> Visited)\<rparr>)) g" for g
    unfolding clearWalls_cells_def
    by (intro map_cong refl) (simp split: CellType.splits)
  have 3: "clearPath_cells (clearPath_cells g) = clearPath_cells g" for g
    by (simp add: clearPath_cells_def comp_def)
  have 4: "clearWalls_cells (clearWalls_cells g) = clearWalls_cells g" for g
    by (simp add: clearWalls_cells_def comp_def)
  show ?thesis
    by (simp only: cells_clearPath cells_clearWalls 3 4 1 [symmetric] 2 [symmetric])
qed

text \<open>
  C8. On a well-formed grid, the visited sequence returned by \<open>bfs\<close> or \<open>dfs\<close> holds each
  coordinate at most once and never the coordinate of the start cell.
\<close>

theorem visited_once:
  assumes "wf_grid n m g" and "bfs n m g s e = Inr r \<or> dfs n m g s e = Inr r"
  shows "distinct (map pos (visited r)) \<and> pos s \<notin> set (map pos (visited r))"
proof -
  from bfs_search_inv [OF assms(1), of s e] dfs_search_inv [OF assms(1), of s e] assms(2)
  obtain st where inv: "search_inv n m g s e st" and fin: "final e st r" by auto
  from final_visited [OF inv fin] show ?thesis by simp
qed

theorem visited_once_witness:
  "wf_grid 3 3 maze \<and>
   (bfs 3 3 maze maze_start maze_end = Inr maze_bfs \<or> dfs 3 3 maze maze_start maze_end = Inr maze_bfs) \<and>
   distinct (map pos (visited maze_bfs)) \<and> pos maze_start \<notin> set (map pos (visited maze_bfs))"
proof -
  have h2: "bfs 3 3 maze maze_start maze_end = Inr maze_bfs \<or> dfs 3 3 maze maze_start maze_end = Inr maze_bfs"
    by (simp add: maze_runs)
  from visited_once [OF wf_maze h2] wf_maze h2 show ?thesis by blast
qed

text \<open>
  C9. If \<open>visualizePath\<close> is called while the start reference or the end reference is
  unset, no traversal is run and the state is left as it was (grid, cells and running flag
  included) but for the message, which becomes the request to select both points.
\<close>

theorem run_without_endpoints:
  assumes "start s = None \<or> end' s = None"
  shows "visualizePath s = (s\<lparr>message := ''Please select both start and end points!''\<rparr>, None)"
  using assms by (auto simp: visualizePath_def split: option.splits)

theorem run_without_endpoints_witness:
  "(start blank = None \<or> end' blank = None) \<and>
   snd (visualizePath blank) = None \<and>
   cells (fst (visualizePath blank)) = cells blank \<and>
   grid (fst (visualizePath blank)) = grid blank \<and>
   isRunning (fst (visualizePath blank)) = isRunning blank \<and>
   message (fst (visualizePath blank)) = ''Please select both start and end points!''"
proof -
  have h: "start blank = None \<or> end' blank = None" by code_simp
  from run_without_endpoints [OF h] h show ?thesis by (simp add: cells_def)
qed

text \<open>
  C10. On a well-formed grid, \<open>bfs\<close> and \<open>dfs\<close> both return a result, and the two
  results have the same found flag.
\<close>

theorem same_found_flag:
  assumes "wf_grid n m g"
  shows "\<exists>rb rd. bfs n m g s e = Inr rb \<and> dfs n m g s e = Inr rd \<and> found rb = found rd"
  using found_iff_walk [OF assms, of s e] by auto

theorem same_found_flag_witness:
  "wf_grid 3 3 maze \<and> wf_grid 3 3 barrier \<and>
   (\<exists>rb rd. bfs 3 3 maze maze_start maze_end = Inr rb \<and> dfs 3 3 maze maze_start maze_end = Inr rd \<and>
            found rb = found rd) \<and>
   (\<exists>rb rd. bfs 3 3 barrier barrier_start barrier_end = Inr rb \<and>
            dfs 3 3 barrier barrier_start barrier_end = Inr rd \<and> found rb = found rd)"
proof -
  have h: "wf_grid 3 3 barrier" by code_simp
  from same_found_flag [OF wf_maze, of maze_start maze_end]
    same_found_flag [OF h, of barrier_start barrier_end] wf_maze h
  show ?thesis by blast
qed

end
